theory Spec2Isabelle
  imports Main "HOL-Library.Word"
begin

section \<open>Query types, query instances and the dispatcher\<close>

text \<open>
  Callbacks of the C code are functions with side effects. Every callback is modelled as
  a function that takes the state of the world (type \<open>'w\<close>: the memory the callback
  may touch and the output files it may write to) and returns it updated, next to its C
  return value. A \<open>NULL\<close> function pointer is \<open>None\<close>; a \<open>NULL\<close> statistics
  object is \<open>None\<close> as well.
\<close>

text \<open>
  Modelled from the spec: \<open>query_instance.c\<close> is not among the sources. A query
  instance is \<open>{ type_id, argument_data, ... }\<close>; \<open>query_instance_get_type\<close>
  reads the first field.
\<close>

record 'a query_instance =
  type_id :: nat
  argument_data :: 'a

definition query_instance_get_type :: "('a, 'm) query_instance_scheme \<Rightarrow> nat" where
  "query_instance_get_type instance = type_id instance"

type_synonym ('db, 'a, 'st, 'w) generate_statistics_callback =
  "'db \<Rightarrow> 'a query_instance list \<Rightarrow> 'w \<Rightarrow> 'st option \<times> 'w"

type_synonym ('st, 'w) free_statistics_callback =
  "'st option \<Rightarrow> 'w \<Rightarrow> 'w"

type_synonym ('db, 'a, 'st, 'out, 'w) execute_callback =
  "'db \<Rightarrow> 'st option \<Rightarrow> 'a query_instance \<Rightarrow> 'out \<Rightarrow> 'w \<Rightarrow> int \<times> 'w"

text \<open>\<open>struct query_type\<close> of \<open>query_type.c\<close>: a tuple of callbacks.\<close>

record ('db, 'a, 'st, 'out, 'w) query_type =
  parse_arguments :: "string list \<Rightarrow> 'a option"
  free_query_instance_argument_data :: "'a \<Rightarrow> 'w \<Rightarrow> 'w"
  generate_statistics :: "('db, 'a, 'st, 'w) generate_statistics_callback option"
  free_statistics :: "('st, 'w) free_statistics_callback option"
  execute :: "('db, 'a, 'st, 'out, 'w) execute_callback"

definition query_type_create ::
  "(string list \<Rightarrow> 'a option) \<Rightarrow> ('a \<Rightarrow> 'w \<Rightarrow> 'w) \<Rightarrow>
   ('db, 'a, 'st, 'w) generate_statistics_callback option \<Rightarrow>
   ('st, 'w) free_statistics_callback option \<Rightarrow>
   ('db, 'a, 'st, 'out, 'w) execute_callback \<Rightarrow> ('db, 'a, 'st, 'out, 'w) query_type" where
  "query_type_create pa fa gs fs ex =
     \<lparr>parse_arguments = pa, free_query_instance_argument_data = fa,
      generate_statistics = gs, free_statistics = fs, execute = ex\<rparr>"

definition query_type_get_generate_statistics_callback ::
  "('db, 'a, 'st, 'out, 'w) query_type \<Rightarrow> ('db, 'a, 'st, 'w) generate_statistics_callback option" where
  "query_type_get_generate_statistics_callback ty = generate_statistics ty"

definition query_type_get_free_statistics_callback ::
  "('db, 'a, 'st, 'out, 'w) query_type \<Rightarrow> ('st, 'w) free_statistics_callback option" where
  "query_type_get_free_statistics_callback ty = free_statistics ty"

definition query_type_get_execute_callback ::
  "('db, 'a, 'st, 'out, 'w) query_type \<Rightarrow> ('db, 'a, 'st, 'out, 'w) execute_callback" where
  "query_type_get_execute_callback ty = execute ty"

text \<open>
  The list of known query types (\<open>query_type_list.c\<close> is not among the sources) is taken
  as a parameter: a partial map from the type index to the type, so that
  \<open>query_type_list_get_by_index\<close> answers \<open>NULL\<close> (\<open>None\<close>) for an unknown index.
\<close>

type_synonym ('db, 'a, 'st, 'out, 'w) query_type_list =
  "nat \<Rightarrow> ('db, 'a, 'st, 'out, 'w) query_type option"

definition query_type_list_get_by_index ::
  "('db, 'a, 'st, 'out, 'w) query_type_list \<Rightarrow> nat \<Rightarrow> ('db, 'a, 'st, 'out, 'w) query_type option" where
  "query_type_list_get_by_index qtl idx = qtl idx"

text \<open>
  \<open>query_dispatcher_data_t\<close>. The field \<open>i\<close> of the C structure (number of queries
  processed until now) is called \<open>i_done\<close> here. The array \<open>outputs\<close> is a list; the
  C code reads it without knowing its length, and a read past its end is undefined
  behaviour, which the model reports as \<open>None\<close>.
\<close>

record ('db, 'a, 'st, 'out, 'w) query_dispatcher_data =
  database :: 'db
  query_type_list :: "('db, 'a, 'st, 'out, 'w) query_type_list"
  outputs :: "'out list"
  i_done :: nat

text \<open>
  The \<open>for\<close> loop of \<open>__query_dispatcher_query_set_callback\<close>: instance \<open>j\<close> is
  executed on \<open>outputs[i + j]\<close> and the value \<open>execute\<close> returns is dropped
  (\<open>/* Ignore returned result */\<close>). The argument \<open>k\<close> is \<open>i + j\<close>.
\<close>

fun dispatch_execute_loop ::
  "('db, 'a, 'st, 'out, 'w) execute_callback \<Rightarrow> 'db \<Rightarrow> 'st option \<Rightarrow> 'out list \<Rightarrow> nat \<Rightarrow>
   'a query_instance list \<Rightarrow> 'w \<Rightarrow> 'w option" where
  "dispatch_execute_loop ex db statistics outs k [] w = Some w"
| "dispatch_execute_loop ex db statistics outs k (instance # rest) w =
     (if k < length outs
      then dispatch_execute_loop ex db statistics outs (Suc k) rest
             (snd (ex db statistics instance (outs ! k) w))
      else None)"

text \<open>
  \<open>__query_dispatcher_query_set_callback\<close>: called with the \<open>n\<close> instances of one
  set (\<open>instances\<close>, \<open>n = length instances\<close>). The result is the returned \<open>int\<close>,
  the updated dispatcher data and the world. Reading the type of the first instance of an
  empty set is a read out of range (\<open>None\<close>).
\<close>

definition query_dispatcher_query_set_callback ::
  "('db, 'a, 'st, 'out, 'w) query_dispatcher_data \<Rightarrow> 'a query_instance list \<Rightarrow> 'w \<Rightarrow>
   (int \<times> ('db, 'a, 'st, 'out, 'w) query_dispatcher_data \<times> 'w) option" where
  "query_dispatcher_query_set_callback dispatcher_data instances w =
     (case instances of
        [] \<Rightarrow> None
      | first # _ \<Rightarrow>
          (case query_type_list_get_by_index (query_type_list dispatcher_data)
                  (query_instance_get_type first) of
             None \<Rightarrow> Some (0, dispatcher_data, w)
           | Some ty \<Rightarrow>
               (let generate_stats = query_type_get_generate_statistics_callback ty;
                    free_stats = query_type_get_free_statistics_callback ty;
                    exec = query_type_get_execute_callback ty;
                    (statistics, w1) =
                      (case generate_stats of
                         None \<Rightarrow> (None, w)
                       | Some g \<Rightarrow> g (database dispatcher_data) instances w)
                in case dispatch_execute_loop exec (database dispatcher_data) statistics
                          (outputs dispatcher_data) (i_done dispatcher_data) instances w1 of
                     None \<Rightarrow> None
                   | Some w2 \<Rightarrow>
                       Some (0,
                             dispatcher_data\<lparr>i_done := i_done dispatcher_data + length instances\<rparr>,
                             (case free_stats of
                                None \<Rightarrow> w2
                              | Some f \<Rightarrow> f statistics w2)))))"

text \<open>
  Modelled from the spec: \<open>query_instance_list.c\<close> is not among the sources. The list
  is an ordered sequence of instances; \<open>query_instance_list_iter_types\<close> partitions it
  by type (stable, type-contiguous: the maximal runs of instances of one type, in list
  order) and calls the callback once for every set, until a callback returns a value
  other than \<open>0\<close>.
\<close>

definition query_instance_list_create :: "'a query_instance list" where
  "query_instance_list_create = []"

definition query_instance_list_add ::
  "'a query_instance list \<Rightarrow> 'a query_instance \<Rightarrow> 'a query_instance list" where
  "query_instance_list_add list instance = list @ [instance]"

function partition_by_type :: "'a query_instance list \<Rightarrow> 'a query_instance list list" where
  "partition_by_type [] = []"
| "partition_by_type (x # xs) =
     (x # takeWhile (\<lambda>y. type_id y = type_id x) xs) #
     partition_by_type (dropWhile (\<lambda>y. type_id y = type_id x) xs)"
  by pat_completeness auto
termination
  by (relation "measure length") (auto simp: length_dropWhile_le less_Suc_eq_le)

fun iter_type_sets ::
  "('u \<Rightarrow> 'a query_instance list \<Rightarrow> 'w \<Rightarrow> (int \<times> 'u \<times> 'w) option) \<Rightarrow> 'u \<Rightarrow>
   'a query_instance list list \<Rightarrow> 'w \<Rightarrow> (int \<times> 'u \<times> 'w) option" where
  "iter_type_sets callback user_data [] w = Some (0, user_data, w)"
| "iter_type_sets callback user_data (s # ss) w =
     (case callback user_data s w of
        None \<Rightarrow> None
      | Some (r, user_data', w') \<Rightarrow>
          if r \<noteq> 0 then Some (r, user_data', w')
          else iter_type_sets callback user_data' ss w')"

definition query_instance_list_iter_types ::
  "'a query_instance list \<Rightarrow>
   ('u \<Rightarrow> 'a query_instance list \<Rightarrow> 'w \<Rightarrow> (int \<times> 'u \<times> 'w) option) \<Rightarrow> 'u \<Rightarrow> 'w \<Rightarrow>
   (int \<times> 'u \<times> 'w) option" where
  "query_instance_list_iter_types list callback user_data w =
     iter_type_sets callback user_data (partition_by_type list) w"

text \<open>\<open>query_dispatcher_dispatch_list\<close>; the field \<open>i\<close> starts at zero.\<close>

definition query_dispatcher_dispatch_list ::
  "'db \<Rightarrow> 'a query_instance list \<Rightarrow> ('db, 'a, 'st, 'out, 'w) query_type_list \<Rightarrow> 'out list \<Rightarrow>
   'w \<Rightarrow> 'w option" where
  "query_dispatcher_dispatch_list db query_instance_list qtl outs w =
     (case query_instance_list_iter_types query_instance_list
             query_dispatcher_query_set_callback
             \<lparr>database = db, query_type_list = qtl, outputs = outs, i_done = 0\<rparr> w of
        None \<Rightarrow> None
      | Some (_, _, w') \<Rightarrow> Some w')"

text \<open>
  \<open>query_dispatcher_dispatch_single\<close>: \<open>&output\<close> is an array of one output.
\<close>

definition query_dispatcher_dispatch_single ::
  "'db \<Rightarrow> 'a query_instance \<Rightarrow> ('db, 'a, 'st, 'out, 'w) query_type_list \<Rightarrow> 'out \<Rightarrow>
   'w \<Rightarrow> 'w option" where
  "query_dispatcher_dispatch_single db query_instance qtl output w =
     (let list = query_instance_list_add query_instance_list_create query_instance
      in query_dispatcher_dispatch_list db list qtl [output] w)"

subsection \<open>Observing the calls\<close>

text \<open>
  To state which callbacks a dispatch calls, every callback of a query type is wrapped
  into a stub that does what the callback does and also appends a record of the call
  (the type index, the arguments and the returned value) to a log kept beside the
  world. The dispatcher itself is unchanged: it runs on the world \<open>'w \<times> call list\<close>.
\<close>

datatype ('db, 'a, 'st, 'out) call =
    GenerateStatistics nat 'db "'a query_instance list" "'st option"
  | Execute nat 'db "'st option" "'a query_instance" 'out int
  | FreeStatistics nat "'st option"

definition traced_type ::
  "nat \<Rightarrow> ('db, 'a, 'st, 'out, 'w) query_type \<Rightarrow>
   ('db, 'a, 'st, 'out, 'w \<times> ('db, 'a, 'st, 'out) call list) query_type" where
  "traced_type idx ty =
     \<lparr>parse_arguments = parse_arguments ty,
      free_query_instance_argument_data =
        (\<lambda>a (w, log). (free_query_instance_argument_data ty a w, log)),
      generate_statistics =
        map_option
          (\<lambda>g db instances (w, log).
             (fst (g db instances w),
              (snd (g db instances w),
               log @ [GenerateStatistics idx db instances (fst (g db instances w))])))
          (generate_statistics ty),
      free_statistics =
        map_option (\<lambda>f statistics (w, log). (f statistics w, log @ [FreeStatistics idx statistics]))
          (free_statistics ty),
      execute =
        (\<lambda>db statistics instance out (w, log).
           (fst (execute ty db statistics instance out w),
            (snd (execute ty db statistics instance out w),
             log @ [Execute idx db statistics instance out
                      (fst (execute ty db statistics instance out w))])))\<rparr>"

definition traced_list ::
  "('db, 'a, 'st, 'out, 'w) query_type_list \<Rightarrow>
   ('db, 'a, 'st, 'out, 'w \<times> ('db, 'a, 'st, 'out) call list) query_type_list" where
  "traced_list qtl = (\<lambda>idx. map_option (traced_type idx) (qtl idx))"

text \<open>
  Predicates over the log of calls. \<open>registered\<close>: the type index of the instance is
  known to the list of types. \<open>partition_calls qtl db p calls\<close>: \<open>calls\<close> is what
  one set \<open>p\<close> of instances of one type gives rise to: nothing for an unknown type;
  otherwise one \<open>generate_statistics\<close> over the whole set when that callback is not
  \<open>NULL\<close>, then one \<open>execute\<close> for every instance of the set, in order, each on the
  statistics that call returned (\<open>NULL\<close> without the callback), then one
  \<open>free_statistics\<close> on the same statistics when that callback is not \<open>NULL\<close>.
  \<open>executed\<close>: the instances executed, each with the output it was given, in call
  order.
\<close>

definition registered ::
  "('db, 'a, 'st, 'out, 'w) query_type_list \<Rightarrow> 'a query_instance \<Rightarrow> bool" where
  "registered qtl instance \<longleftrightarrow>
     query_type_list_get_by_index qtl (query_instance_get_type instance) \<noteq> None"

definition partition_calls ::
  "('db, 'a, 'st, 'out, 'w) query_type_list \<Rightarrow> 'db \<Rightarrow> 'a query_instance list \<Rightarrow>
   ('db, 'a, 'st, 'out) call list \<Rightarrow> bool" where
  "partition_calls qtl db p calls =
     (case qtl (type_id (hd p)) of
        None \<Rightarrow> calls = []
      | Some ty \<Rightarrow>
          (\<exists>statistics execs.
             calls =
               (if generate_statistics ty = None then []
                else [GenerateStatistics (type_id (hd p)) db p statistics]) @
               execs @
               (if free_statistics ty = None then []
                else [FreeStatistics (type_id (hd p)) statistics]) \<and>
             (generate_statistics ty = None \<longrightarrow> statistics = None) \<and>
             list_all2 (\<lambda>instance c. \<exists>out r. c = Execute (type_id (hd p)) db statistics instance out r)
               p execs))"

fun executed :: "('db, 'a, 'st, 'out) call list \<Rightarrow> ('a query_instance \<times> 'out) list" where
  "executed [] = []"
| "executed (Execute idx db st instance out r # cs) = (instance, out) # executed cs"
| "executed (GenerateStatistics idx db instances st # cs) = executed cs"
| "executed (FreeStatistics idx st # cs) = executed cs"

text \<open>
  A small registry for worked examples: type \<open>0\<close> generates statistics and has no
  \<open>free_statistics\<close>, type \<open>1\<close> has both; the \<open>execute\<close> of both reports a failure
  (returns \<open>1\<close>) for every instance. No other type is known.
\<close>

definition example_parse :: "string list \<Rightarrow> unit option" where
  "example_parse argv = None"

definition example_free_arguments :: "unit \<Rightarrow> unit \<Rightarrow> unit" where
  "example_free_arguments a w = w"

definition example_generate :: "(unit, unit, nat, unit) generate_statistics_callback" where
  "example_generate db instances w = (Some (length instances), w)"

definition example_free :: "(nat, unit) free_statistics_callback" where
  "example_free statistics w = w"

definition example_execute_failing :: "(unit, unit, nat, nat, unit) execute_callback" where
  "example_execute_failing db statistics instance out w = (1, w)"

definition example_type_no_free :: "(unit, unit, nat, nat, unit) query_type" where
  "example_type_no_free =
     query_type_create example_parse example_free_arguments
       (Some example_generate) None example_execute_failing"

definition example_type :: "(unit, unit, nat, nat, unit) query_type" where
  "example_type =
     query_type_create example_parse example_free_arguments
       (Some example_generate) (Some example_free) example_execute_failing"

definition example_types :: "(unit, unit, nat, nat, unit) query_type_list" where
  "example_types idx =
     (if idx = 0 then Some example_type_no_free
      else if idx = 1 then Some example_type else None)"

definition example_instance :: "nat \<Rightarrow> unit query_instance" where
  "example_instance idx = \<lparr>type_id = idx, argument_data = ()\<rparr>"

section \<open>Block pool\<close>

text \<open>
  Modelled from the spec: \<open>pool.c\<close> is not among the sources (only \<open>pool.h\<close> is).
  The spec and the header say: a pool owns a growable ordered sequence of
  fixed-capacity blocks; when the current block is full, one new block of the same
  capacity is allocated and appended; no block is ever moved, resized or released
  before the pool as a whole; an allocation failure leaves the pool as it was.

  A block is the list of its slots in use (never more than \<open>block_capacity\<close> of them
  once the pool is in use); the current block is the last one. An item pointer is the
  pair of the index of its block and the index of its slot in the block. The Boolean
  of the allocating functions says whether the allocation of a new block, when one is
  needed, succeeds. A slot handed out by \<open>pool_alloc_item\<close> is not initialised:
  \<open>junk\<close> is what the memory happens to hold.
\<close>

type_synonym pool_handle = "nat \<times> nat"

record 'a pool =
  item_size :: nat
  block_capacity :: nat
  blocks :: "'a list list"

definition pool_create :: "nat \<Rightarrow> nat \<Rightarrow> 'a pool" where
  "pool_create item_sz capacity = \<lparr>item_size = item_sz, block_capacity = capacity, blocks = []\<rparr>"

definition pool_alloc_item :: "bool \<Rightarrow> 'a \<Rightarrow> 'a pool \<Rightarrow> pool_handle option \<times> 'a pool" where
  "pool_alloc_item ok junk pool =
     (if blocks pool = [] \<or> block_capacity pool \<le> length (last (blocks pool))
      then (if ok
            then (Some (length (blocks pool), 0), pool\<lparr>blocks := blocks pool @ [[junk]]\<rparr>)
            else (None, pool))
      else (Some (length (blocks pool) - 1, length (last (blocks pool))),
            pool\<lparr>blocks := butlast (blocks pool) @ [last (blocks pool) @ [junk]]\<rparr>))"

text \<open>\<open>pool_put_item\<close>: a slot is allocated and the item is copied into it.\<close>

definition pool_put_item :: "bool \<Rightarrow> 'a pool \<Rightarrow> 'a \<Rightarrow> pool_handle option \<times> 'a pool" where
  "pool_put_item ok pool item = pool_alloc_item ok item pool"

text \<open>
  Reading and writing through an item pointer. A pointer that the pool has not handed
  out reads as \<open>None\<close>.
\<close>

definition pool_get :: "'a pool \<Rightarrow> pool_handle \<Rightarrow> 'a option" where
  "pool_get pool h =
     (if fst h < length (blocks pool) \<and> snd h < length (blocks pool ! fst h)
      then Some (blocks pool ! fst h ! snd h) else None)"

definition pool_modify :: "'a pool \<Rightarrow> pool_handle \<Rightarrow> ('a \<Rightarrow> 'a) \<Rightarrow> 'a pool" where
  "pool_modify pool h f =
     (case pool_get pool h of
        None \<Rightarrow> pool
      | Some item \<Rightarrow>
          pool\<lparr>blocks := (blocks pool)[fst h := (blocks pool ! fst h)[snd h := f item]]\<rparr>)"

text \<open>
  \<open>pool_iter\<close>: block order, then slot order; the iteration stops at the first
  callback that returns a value other than \<open>0\<close>, and the value of the last call is
  returned (\<open>0\<close> when nothing was called).
\<close>

definition pool_items :: "'a pool \<Rightarrow> 'a list" where
  "pool_items pool = concat (blocks pool)"

fun iter_items :: "('u \<Rightarrow> 'a \<Rightarrow> int \<times> 'u) \<Rightarrow> 'u \<Rightarrow> 'a list \<Rightarrow> int \<times> 'u" where
  "iter_items callback user_data [] = (0, user_data)"
| "iter_items callback user_data (item # rest) =
     (if fst (callback user_data item) \<noteq> 0 then callback user_data item
      else iter_items callback (snd (callback user_data item)) rest)"

definition pool_iter :: "'a pool \<Rightarrow> ('u \<Rightarrow> 'a \<Rightarrow> int \<times> 'u) \<Rightarrow> 'u \<Rightarrow> int \<times> 'u" where
  "pool_iter pool callback user_data = iter_items callback user_data (pool_items pool)"

text \<open>Sequences of allocations on one pool, and the pointers they return.\<close>

datatype 'a pool_op = AllocItem bool 'a | PutItem bool 'a

fun pool_apply :: "'a pool \<Rightarrow> 'a pool_op \<Rightarrow> pool_handle option \<times> 'a pool" where
  "pool_apply pool (AllocItem ok junk) = pool_alloc_item ok junk pool"
| "pool_apply pool (PutItem ok item) = pool_put_item ok pool item"

fun pool_run :: "'a pool \<Rightarrow> 'a pool_op list \<Rightarrow> pool_handle option list \<times> 'a pool" where
  "pool_run pool [] = ([], pool)"
| "pool_run pool (op # ops) =
     (fst (pool_apply pool op) # fst (pool_run (snd (pool_apply pool op)) ops),
      snd (pool_run (snd (pool_apply pool op)) ops))"

text \<open>
  \<open>blocks_extended bs bs'\<close>: the sequence \<open>bs'\<close> of blocks has every block of
  \<open>bs\<close> at the same index, with the same slots at the same indices; it may have more
  slots in use in a block, and more blocks.
\<close>

definition blocks_extended :: "'a list list \<Rightarrow> 'a list list \<Rightarrow> bool" where
  "blocks_extended bs bs' \<longleftrightarrow>
     length bs \<le> length bs' \<and>
     (\<forall>b<length bs. take (length (bs ! b)) (bs' ! b) = bs ! b)"

text \<open>Two states of a pool of numbers with blocks of two slots, for worked examples.\<close>

definition example_pool :: "nat pool" where
  "example_pool = \<lparr>item_size = 4, block_capacity = 2, blocks = [[10, 0]]\<rparr>"

definition example_pool_later :: "nat pool" where
  "example_pool_later = \<lparr>item_size = 4, block_capacity = 2, blocks = [[10, 0], [11, 12], [14]]\<rparr>"

section \<open>String pools\<close>

text \<open>
  Modelled from the spec: \<open>string_pool.c\<close> is not among the sources. A string pool
  stores a null-terminated copy of an input string contiguously and returns a pointer to
  it that stays valid until the pool is freed; \<open>string_pool_put\<close> returns \<open>NULL\<close>
  only on allocation failure, and stored strings are never moved or changed.

  The storage of the pool is the list \<open>arena\<close> of all bytes stored so far, a string
  pointer is the position of the first byte of a copy, and the Boolean of
  \<open>string_pool_put\<close> says whether the allocation the copy needs succeeds. A C string
  is the list of its bytes before the terminator, so it holds no null byte.
\<close>

definition NUL :: char where
  "NUL = CHR 0x00"

definition c_string :: "string \<Rightarrow> bool" where
  "c_string s \<longleftrightarrow> NUL \<notin> set s"

record string_pool =
  string_block_capacity :: nat
  arena :: "char list"

definition string_pool_create :: "nat \<Rightarrow> string_pool" where
  "string_pool_create capacity = \<lparr>string_block_capacity = capacity, arena = []\<rparr>"

definition string_pool_put :: "bool \<Rightarrow> string_pool \<Rightarrow> string \<Rightarrow> nat option \<times> string_pool" where
  "string_pool_put ok pool str =
     (if ok then (Some (length (arena pool)), pool\<lparr>arena := arena pool @ str @ [NUL]\<rparr>)
      else (None, pool))"

text \<open>
  Reading the C string at a position: the bytes from there up to the first null byte.
  \<open>None\<close> when there is no null byte from that position on (not a string of the pool).
\<close>

definition string_at :: "char list \<Rightarrow> nat \<Rightarrow> string option" where
  "string_at bytes p =
     (if NUL \<in> set (drop p bytes) then Some (takeWhile (\<lambda>c. c \<noteq> NUL) (drop p bytes))
      else None)"

subsection \<open>String pool without duplicates (string_pool_no_duplicates.c)\<close>

text \<open>
  \<open>already_stored\<close> is a \<open>GHashTable\<close> created with \<open>g_str_hash\<close> and
  \<open>g_str_equal\<close>: its keys and values are string pointers, and two keys are equal
  when the strings they point to are. The table is the list of its (key, value) pairs;
  a lookup reads the strings the keys point to in the pool. \<open>g_hash_table_insert\<close>
  replaces the value of an equal key and adds the pair otherwise.
\<close>

type_synonym str_hash_table = "(nat \<times> nat) list"

definition g_str_equal :: "char list \<Rightarrow> nat \<Rightarrow> string \<Rightarrow> bool" where
  "g_str_equal bytes key str \<longleftrightarrow> string_at bytes key = Some str"

definition g_hash_table_lookup_str :: "char list \<Rightarrow> str_hash_table \<Rightarrow> string \<Rightarrow> nat option" where
  "g_hash_table_lookup_str bytes table str =
     map_option snd (find (\<lambda>kv. g_str_equal bytes (fst kv) str) table)"

fun g_hash_table_insert_str ::
  "char list \<Rightarrow> str_hash_table \<Rightarrow> nat \<Rightarrow> nat \<Rightarrow> str_hash_table" where
  "g_hash_table_insert_str bytes [] key v = [(key, v)]"
| "g_hash_table_insert_str bytes (kv # table) key v =
     (if string_at bytes (fst kv) = string_at bytes key then (fst kv, v) # table
      else kv # g_hash_table_insert_str bytes table key v)"

record string_pool_no_duplicates =
  strings :: string_pool
  already_stored :: str_hash_table

definition string_pool_no_duplicates_create :: "nat \<Rightarrow> string_pool_no_duplicates" where
  "string_pool_no_duplicates_create capacity =
     \<lparr>strings = string_pool_create capacity, already_stored = []\<rparr>"

definition string_pool_no_duplicates_put ::
  "bool \<Rightarrow> string_pool_no_duplicates \<Rightarrow> string \<Rightarrow> nat option \<times> string_pool_no_duplicates" where
  "string_pool_no_duplicates_put ok pool str =
     (case g_hash_table_lookup_str (arena (strings pool)) (already_stored pool) str of
        None \<Rightarrow>
          (case string_pool_put ok (strings pool) str of
             (None, sp) \<Rightarrow> (None, pool\<lparr>strings := sp\<rparr>)
           | (Some pool_string, sp) \<Rightarrow>
               (Some pool_string,
                pool\<lparr>strings := sp,
                     already_stored :=
                       g_hash_table_insert_str (arena sp) (already_stored pool)
                         pool_string pool_string\<rparr>))
      | Some data \<Rightarrow> (Some data, pool))"

text \<open>A pool after a sequence of insertions, each with its allocation outcome.\<close>

fun no_duplicates_puts ::
  "string_pool_no_duplicates \<Rightarrow> (bool \<times> string) list \<Rightarrow> string_pool_no_duplicates" where
  "no_duplicates_puts pool [] = pool"
| "no_duplicates_puts pool (x # xs) =
     no_duplicates_puts (snd (string_pool_no_duplicates_put (fst x) pool (snd x))) xs"

text \<open>
  The invariant of a pool without duplicates: every entry of the table maps a string
  pointer to itself, and the pointer is that of a terminated string of the pool.
\<close>

definition no_duplicates_inv :: "string_pool_no_duplicates \<Rightarrow> bool" where
  "no_duplicates_inv pool \<longleftrightarrow>
     (\<forall>kv\<in>set (already_stored pool).
        snd kv = fst kv \<and> NUL \<in> set (drop (fst kv) (arena (strings pool))))"

text \<open>A pool that holds the strings \<open>ab\<close> and \<open>cd\<close>, for worked examples.\<close>

definition example_names :: string_pool_no_duplicates where
  "example_names =
     \<lparr>strings = \<lparr>string_block_capacity = 16, arena = ''ab'' @ [NUL] @ ''cd'' @ [NUL]\<rparr>,
      already_stored = [(0, 0), (3, 3)]\<rparr>"

section \<open>Reservations and the reservation manager\<close>

text \<open>
  Modelled from the spec: \<open>reservation.c\<close> is not among the sources. A reservation is
  a fixed-size structure with an identifier, string fields that are pointers (the
  identifier of the user and the name of the hotel) and scalar fields; it can be marked
  invalid in place. The scalar fields other than the identifier are the extension of the
  record, so that every statement below holds whatever they are. \<open>flight.h\<close>
  documents the convention of the validity check for flights, taken here for
  reservations: \<open>0\<close> for a valid entity, \<open>1\<close> for an invalid one.

  The type \<open>'s\<close> is that of the string fields: in the reservation a caller passes to
  the manager, a string field is given by the bytes of the C string it points to; in a
  reservation stored in the pool of the manager, a string field is a pointer, either
  the caller's (\<open>CallerString\<close>, as the shallow copy leaves it) or one into the string
  pool of the manager (\<open>PoolString\<close>).
\<close>

datatype char_ptr = CallerString string | PoolString nat

record 's reservation =
  reservation_id :: nat
  user_id :: 's
  hotel_name :: 's
  invalidated :: bool

definition reservation_get_id :: "('s, 'm) reservation_scheme \<Rightarrow> nat" where
  "reservation_get_id r = reservation_id r"

definition reservation_get_const_user_id :: "('s, 'm) reservation_scheme \<Rightarrow> 's" where
  "reservation_get_const_user_id r = user_id r"

definition reservation_get_const_hotel_name :: "('s, 'm) reservation_scheme \<Rightarrow> 's" where
  "reservation_get_const_hotel_name r = hotel_name r"

definition reservation_set_user_id ::
  "'s \<Rightarrow> ('s, 'm) reservation_scheme \<Rightarrow> ('s, 'm) reservation_scheme" where
  "reservation_set_user_id p r = r\<lparr>user_id := p\<rparr>"

definition reservation_set_hotel_name ::
  "'s \<Rightarrow> ('s, 'm) reservation_scheme \<Rightarrow> ('s, 'm) reservation_scheme" where
  "reservation_set_hotel_name p r = r\<lparr>hotel_name := p\<rparr>"

definition reservation_invalidate :: "('s, 'm) reservation_scheme \<Rightarrow> ('s, 'm) reservation_scheme" where
  "reservation_invalidate r = r\<lparr>invalidated := True\<rparr>"

definition reservation_is_valid :: "('s, 'm) reservation_scheme \<Rightarrow> int" where
  "reservation_is_valid r = (if invalidated r then 1 else 0)"

text \<open>What \<open>pool_put_item\<close> copies into the pool: the structure, pointers included.\<close>

definition reservation_shallow_copy ::
  "(string, 'm) reservation_scheme \<Rightarrow> (char_ptr, 'm) reservation_scheme" where
  "reservation_shallow_copy r =
     \<lparr>reservation_id = reservation_id r,
      user_id = CallerString (user_id r),
      hotel_name = CallerString (hotel_name r),
      invalidated = invalidated r,
      \<dots> = reservation.more r\<rparr>"

text \<open>
  \<open>struct reservation_manager\<close> (\<open>reservation_manager.c\<close>). Its field \<open>strings\<close>
  is called \<open>manager_strings\<close> here. \<open>id_reservations_rel\<close> is a \<open>GHashTable\<close>
  created with \<open>g_direct_hash\<close> and \<open>g_direct_equal\<close>, from identifiers to pointers
  into the pool: a map. \<open>g_hash_table_insert\<close> returns \<open>TRUE\<close> when the key was not
  in the table.
\<close>

record 'm reservation_manager =
  reservations :: "(char_ptr, 'm) reservation_scheme pool"
  manager_strings :: string_pool
  id_reservations_rel :: "nat \<rightharpoonup> pool_handle"

definition g_hash_table_insert :: "('k \<rightharpoonup> 'v) \<Rightarrow> 'k \<Rightarrow> 'v \<Rightarrow> bool \<times> ('k \<rightharpoonup> 'v)" where
  "g_hash_table_insert table key v = (table key = None, table(key \<mapsto> v))"

definition g_hash_table_lookup :: "('k \<rightharpoonup> 'v) \<Rightarrow> 'k \<Rightarrow> 'v option" where
  "g_hash_table_lookup table key = table key"

text \<open>
  \<open>reservation_manager_create\<close>: the three Booleans say whether the allocation of the
  manager, of the pool and of the string pool succeed; \<open>reservation_sizeof\<close> (not among
  the sources) is a parameter.
\<close>

definition reservation_manager_create ::
  "bool \<Rightarrow> bool \<Rightarrow> bool \<Rightarrow> nat \<Rightarrow> 'm reservation_manager option" where
  "reservation_manager_create ok_manager ok_pool ok_strings reservation_sizeof =
     (if \<not> ok_manager then None
      else if \<not> ok_pool then None
      else if \<not> ok_strings then None
      else Some \<lparr>reservations = pool_create reservation_sizeof 50000,
                 manager_strings = string_pool_create 100000,
                 id_reservations_rel = Map.empty\<rparr>)"

text \<open>
  \<open>reservation_manager_add_reservation\<close>. The three Booleans are the allocation
  outcomes of the copy of the structure and of the copies of the two strings. The
  result is the returned pointer (\<open>None\<close> for \<open>NULL\<close>), the manager after the call
  and the lines written to \<open>stderr\<close>.
\<close>

datatype log_message = RepeatedReservationId nat

definition reservation_manager_add_reservation ::
  "bool \<Rightarrow> bool \<Rightarrow> bool \<Rightarrow> 'm reservation_manager \<Rightarrow> (string, 'm) reservation_scheme \<Rightarrow>
   pool_handle option \<times> 'm reservation_manager \<times> log_message list" where
  "reservation_manager_add_reservation ok_item ok_user_id ok_hotel_name manager reservation =
     (case pool_put_item ok_item (reservations manager) (reservation_shallow_copy reservation) of
        (None, pool1) \<Rightarrow> (None, manager\<lparr>reservations := pool1\<rparr>, [])
      | (Some pool_reservation, pool1) \<Rightarrow>
          (case string_pool_put ok_user_id (manager_strings manager)
                  (reservation_get_const_user_id reservation) of
             (pool_user_id, strings1) \<Rightarrow>
               (case string_pool_put ok_hotel_name strings1
                       (reservation_get_const_hotel_name reservation) of
                  (pool_hotel_name, strings2) \<Rightarrow>
                    (case (pool_user_id, pool_hotel_name) of
                       (Some u, Some h) \<Rightarrow>
                         (let pool2 = pool_modify pool1 pool_reservation
                                        (reservation_set_user_id (PoolString u));
                              pool3 = pool_modify pool2 pool_reservation
                                        (reservation_set_hotel_name (PoolString h));
                              res_id = reservation_get_id reservation;
                              (fresh, table) =
                                g_hash_table_insert (id_reservations_rel manager) res_id
                                  pool_reservation
                          in (Some pool_reservation,
                              manager\<lparr>reservations := pool3, manager_strings := strings2,
                                      id_reservations_rel := table\<rparr>,
                              if fresh then [] else [RepeatedReservationId res_id]))
                     | _ \<Rightarrow>
                         (None,
                          manager\<lparr>reservations :=
                                    pool_modify pool1 pool_reservation reservation_invalidate,
                                  manager_strings := strings2\<rparr>,
                          [])))))"

definition reservation_manager_get_by_id ::
  "'m reservation_manager \<Rightarrow> nat \<Rightarrow> pool_handle option" where
  "reservation_manager_get_by_id manager ident =
     g_hash_table_lookup (id_reservations_rel manager) ident"

text \<open>
  \<open>reservation_manager_iter_reservation_data_t\<close>, \<open>__reservation_manager_iter_callback\<close>
  and \<open>reservation_manager_iter\<close>. A callback takes the user data and a reservation and
  returns an \<open>int\<close> and the user data, updated.
\<close>

record ('u, 'm) reservation_manager_iter_reservation_data =
  callback :: "'u \<Rightarrow> (char_ptr, 'm) reservation_scheme \<Rightarrow> int \<times> 'u"
  original_user_data :: 'u

definition reservation_manager_iter_callback ::
  "('u, 'm) reservation_manager_iter_reservation_data \<Rightarrow> (char_ptr, 'm) reservation_scheme \<Rightarrow>
   int \<times> ('u, 'm) reservation_manager_iter_reservation_data" where
  "reservation_manager_iter_callback helper_data item =
     (if reservation_is_valid item = 0
      then (fst (callback helper_data (original_user_data helper_data) item),
            helper_data\<lparr>original_user_data :=
              snd (callback helper_data (original_user_data helper_data) item)\<rparr>)
      else (0, helper_data))"

definition reservation_manager_iter ::
  "'m reservation_manager \<Rightarrow> ('u \<Rightarrow> (char_ptr, 'm) reservation_scheme \<Rightarrow> int \<times> 'u) \<Rightarrow> 'u \<Rightarrow>
   int \<times> 'u" where
  "reservation_manager_iter manager cb user_data =
     (case pool_iter (reservations manager) reservation_manager_iter_callback
             \<lparr>callback = cb, original_user_data = user_data\<rparr> of
        (r, helper_data) \<Rightarrow> (r, original_user_data helper_data))"

text \<open>
  To state which reservations a callback is called on, the callback is wrapped into one
  that does the same and also appends the reservation to a list kept beside the user
  data.
\<close>

definition recording :: "('u \<Rightarrow> 'r \<Rightarrow> int \<times> 'u) \<Rightarrow> 'u \<times> 'r list \<Rightarrow> 'r \<Rightarrow> int \<times> 'u \<times> 'r list" where
  "recording cb state r =
     (fst (cb (fst state) r), (snd (cb (fst state) r), snd state @ [r]))"

text \<open>A reservation and a manager that holds it, for worked examples.\<close>

definition example_reservation :: "string reservation" where
  "example_reservation =
     \<lparr>reservation_id = 7, user_id = ''ab'', hotel_name = ''cd'', invalidated = False\<rparr>"

definition example_manager :: "unit reservation_manager" where
  "example_manager =
     \<lparr>reservations =
        \<lparr>item_size = 32, block_capacity = 2,
         blocks = [[\<lparr>reservation_id = 7, user_id = PoolString 0, hotel_name = PoolString 3,
                    invalidated = False\<rparr>]]\<rparr>,
      manager_strings = \<lparr>string_block_capacity = 16, arena = ''ab'' @ [NUL] @ ''cd'' @ [NUL]\<rparr>,
      id_reservations_rel = [7 \<mapsto> (0, 0)]\<rparr>"

definition example_other_reservation :: "string reservation" where
  "example_other_reservation =
     \<lparr>reservation_id = 8, user_id = ''ab'', hotel_name = ''cd'', invalidated = False\<rparr>"

definition example_stored :: "char_ptr reservation" where
  "example_stored =
     \<lparr>reservation_id = 7, user_id = PoolString 0, hotel_name = PoolString 3,
      invalidated = False\<rparr>"

definition example_manager_tombstone :: "unit reservation_manager" where
  "example_manager_tombstone =
     \<lparr>reservations =
        \<lparr>item_size = 32, block_capacity = 2,
         blocks = [[example_stored,
                    \<lparr>reservation_id = 8, user_id = CallerString ''ab'',
                     hotel_name = CallerString ''cd'', invalidated = True\<rparr>]]\<rparr>,
      manager_strings =
        \<lparr>string_block_capacity = 16,
         arena = ''ab'' @ [NUL] @ ''cd'' @ [NUL] @ ''cd'' @ [NUL]\<rparr>,
      id_reservations_rel = [7 \<mapsto> (0, 0)]\<rparr>"

definition example_callback :: "nat \<Rightarrow> char_ptr reservation \<Rightarrow> int \<times> nat" where
  "example_callback n r = (0, n + reservation_id r)"

definition example_manager_tombstone_7 :: "unit reservation_manager" where
  "example_manager_tombstone_7 =
     \<lparr>reservations =
        \<lparr>item_size = 32, block_capacity = 2,
         blocks = [[example_stored,
                    \<lparr>reservation_id = 7, user_id = CallerString ''ab'',
                     hotel_name = CallerString ''cd'', invalidated = True\<rparr>]]\<rparr>,
      manager_strings =
        \<lparr>string_block_capacity = 16,
         arena = ''ab'' @ [NUL] @ ''cd'' @ [NUL] @ ''cd'' @ [NUL]\<rparr>,
      id_reservations_rel = [7 \<mapsto> (0, 0)]\<rparr>"

section \<open>Query 7: airports by median departure delay (q07.c)\<close>

text \<open>
  The part of a flight that query 7 reads (\<open>flight.h\<close>): the airport of origin and
  the scheduled and the real date of departure. \<open>airport_code_t\<close> is an unsigned
  integer (the code is stored in the hash table with \<open>GUINT_TO_POINTER\<close>). The type
  \<open>'d\<close> of dates with times and the functions \<open>date_and_time_diff\<close> (seconds
  between two of them, an \<open>int64_t\<close>) and \<open>airport_code_sprintf\<close> are parameters:
  \<open>date_and_time.c\<close> and \<open>airport_code.c\<close> are not among the sources.
\<close>

type_synonym airport_code = "32 word"

record 'd flight =
  origin :: airport_code
  schedule_departure_date :: 'd
  real_departure_date :: 'd

text \<open>
  \<open>g_array_sort\<close> of glib sorts with \<open>qsort\<close>, whose algorithm is not specified. It
  is modelled as an insertion sort that asks the same comparison function: an element
  goes before the first element it does not compare greater than. The comparison
  functions return a \<open>gint\<close>, a 32-bit signed integer, given here by its value.
\<close>

fun insert_sorted :: "('a \<Rightarrow> 'a \<Rightarrow> int) \<Rightarrow> 'a \<Rightarrow> 'a list \<Rightarrow> 'a list" where
  "insert_sorted cmp x [] = [x]"
| "insert_sorted cmp x (y # ys) =
     (if cmp x y \<le> 0 then x # y # ys else y # insert_sorted cmp x ys)"

definition g_array_sort :: "('a \<Rightarrow> 'a \<Rightarrow> int) \<Rightarrow> 'a list \<Rightarrow> 'a list" where
  "g_array_sort cmp xs = foldr (insert_sorted cmp) xs []"

text \<open>
  \<open>__q07_generate_statistics_int64_compare_func\<close>: the difference of two
  \<open>int64_t\<close>, returned as a \<open>gint\<close>: the low 32 bits of the difference.
\<close>

definition q07_generate_statistics_int64_compare_func :: "64 word \<Rightarrow> 64 word \<Rightarrow> int" where
  "q07_generate_statistics_int64_compare_func a b = sint (ucast (a - b) :: 32 word)"

text \<open>
  \<open>__q07_generate_statistics_foreach_flight\<close>. The hash table from airports to
  arrays of delays (\<open>g_direct_hash\<close>, \<open>g_direct_equal\<close>) is the list of its
  (airport, delays) pairs, a new airport going last.
\<close>

type_synonym airport_delays = "(airport_code \<times> 64 word list) list"

definition q07_generate_statistics_foreach_flight ::
  "('d \<Rightarrow> 'd \<Rightarrow> 64 word) \<Rightarrow> airport_delays \<Rightarrow> 'd flight \<Rightarrow> int \<times> airport_delays" where
  "q07_generate_statistics_foreach_flight date_and_time_diff airport_delays flight =
     (let code = origin flight;
          delay = date_and_time_diff (real_departure_date flight) (schedule_departure_date flight);
          table = (if map_of airport_delays code \<noteq> None then airport_delays
                   else airport_delays @ [(code, [])])
      in (0, map (\<lambda>kv. if fst kv = code then (fst kv, snd kv @ [delay]) else kv) table))"

text \<open>\<open>__q07_airport_median\<close>.\<close>

record q07_airport_median =
  airport_code :: airport_code
  median :: "64 word"

text \<open>
  \<open>__q07_generate_statistics_foreach_airport\<close>: the delays are sorted, read as
  \<open>uint64_t\<close> and their median is computed in \<open>double\<close>, rounded and stored as an
  \<open>int64_t\<close>. The \<open>double\<close> arithmetic is exact when the integer it starts from is
  below \<open>2 ^ 53\<close>; otherwise, and for an array without delays (a read out of range),
  the model gives \<open>None\<close>.
\<close>

definition q07_median :: "64 word list \<Rightarrow> 64 word option" where
  "q07_median delays =
     (let len = length delays in
      if len = 0 then None
      else if len mod 2 = 0
      then (let middle = len div 2;
                total = unat (delays ! middle + delays ! (middle - 1))
            in if total < 2 ^ 53 then Some (word_of_nat ((total + 1) div 2)) else None)
      else (let m = unat (delays ! (len div 2))
            in if m < 2 ^ 53 then Some (word_of_nat m) else None))"

definition q07_generate_statistics_foreach_airport ::
  "airport_code \<Rightarrow> 64 word list \<Rightarrow> q07_airport_median list \<Rightarrow> q07_airport_median list option" where
  "q07_generate_statistics_foreach_airport key v to_add =
     (case q07_median (g_array_sort q07_generate_statistics_int64_compare_func v) of
        None \<Rightarrow> None
      | Some m \<Rightarrow> Some (to_add @ [\<lparr>airport_code = key, median = m\<rparr>]))"

text \<open>
  \<open>strcmp\<close>, and \<open>__q07_generate_statistics_airport_median_compare_func\<close>: the
  difference of the medians, an \<open>int64_t\<close>, is assigned to a \<open>uint64_t\<close> and
  returned as a \<open>gint\<close> when it is not zero.
\<close>

fun strcmp :: "string \<Rightarrow> string \<Rightarrow> int" where
  "strcmp [] [] = 0"
| "strcmp [] (y # ys) = - int (of_char y)"
| "strcmp (x # xs) [] = int (of_char x)"
| "strcmp (x # xs) (y # ys) =
     (if x = y then strcmp xs ys else int (of_char x) - int (of_char y))"

definition q07_generate_statistics_airport_median_compare_func ::
  "(airport_code \<Rightarrow> string) \<Rightarrow> q07_airport_median \<Rightarrow> q07_airport_median \<Rightarrow> int" where
  "q07_generate_statistics_airport_median_compare_func airport_code_sprintf a b =
     (let crit1 = median b - median a
      in if crit1 \<noteq> 0 then sint (ucast crit1 :: 32 word)
         else strcmp (airport_code_sprintf (airport_code a))
                (airport_code_sprintf (airport_code b)))"

text \<open>
  The order the statistics are meant to have: \<open>a\<close> may stand before \<open>b\<close> when its
  median is the greater one, or when the medians are equal and its airport code, as
  printed, is not the greater one for \<open>strcmp\<close>.
\<close>

definition q07_before ::
  "(airport_code \<Rightarrow> string) \<Rightarrow> q07_airport_median \<Rightarrow> q07_airport_median \<Rightarrow> bool" where
  "q07_before airport_code_sprintf a b \<longleftrightarrow>
     uint (median b) < uint (median a) \<or>
     (median a = median b \<and>
      strcmp (airport_code_sprintf (airport_code a)) (airport_code_sprintf (airport_code b)) \<le> 0)"

text \<open>
  \<open>__q07_generate_statistics\<close>. The database is given by the list of its valid
  flights, in the order \<open>flight_manager_iter\<close> visits them
  (\<open>flight_manager.c\<close> is not among the sources); the query instances are not read.
  \<open>g_hash_table_foreach\<close> visits the airports in the order of the list.
\<close>

fun q07_foreach_airports ::
  "airport_delays \<Rightarrow> q07_airport_median list \<Rightarrow> q07_airport_median list option" where
  "q07_foreach_airports [] to_add = Some to_add"
| "q07_foreach_airports (kv # rest) to_add =
     (case q07_generate_statistics_foreach_airport (fst kv) (snd kv) to_add of
        None \<Rightarrow> None
      | Some to_add' \<Rightarrow> q07_foreach_airports rest to_add')"

definition q07_generate_statistics ::
  "('d \<Rightarrow> 'd \<Rightarrow> 64 word) \<Rightarrow> (airport_code \<Rightarrow> string) \<Rightarrow> 'd flight list \<Rightarrow>
   q07_airport_median list option" where
  "q07_generate_statistics date_and_time_diff airport_code_sprintf flights =
     (let airport_delays =
            foldl (\<lambda>table flight.
                     snd (q07_generate_statistics_foreach_flight date_and_time_diff table flight))
              [] flights
      in case q07_foreach_airports airport_delays [] of
           None \<Rightarrow> None
         | Some airport_medians \<Rightarrow>
             Some (g_array_sort
                     (q07_generate_statistics_airport_median_compare_func airport_code_sprintf)
                     airport_medians))"

text \<open>
  Two flights for a worked example, with dates as seconds on a time line: one leaves
  airport \<open>1\<close> on time, the other leaves airport \<open>2\<close> 3214080000 seconds late (the
  delay \<open>date_diff\<close> of \<open>date.c\<close> gives between the same day of 1900 and of 2000:
  100 years of 12 months of 31 days).
\<close>

definition example_date_and_time_diff :: "int \<Rightarrow> int \<Rightarrow> 64 word" where
  "example_date_and_time_diff a b = word_of_int (a - b)"

definition example_flight_on_time :: "int flight" where
  "example_flight_on_time =
     \<lparr>origin = 1, schedule_departure_date = 0, real_departure_date = 0\<rparr>"

definition example_flight_late :: "int flight" where
  "example_flight_late =
     \<lparr>origin = 2, schedule_departure_date = 0, real_departure_date = 3214080000\<rparr>"

section \<open>Properties of the dispatcher\<close>

lemma execute_traced:
  "execute (traced_type idx ty) db st inst out (w, log) =
     (fst (execute ty db st inst out w),
      (snd (execute ty db st inst out w),
       log @ [Execute idx db st inst out (fst (execute ty db st inst out w))]))"
  by (simp add: traced_type_def)

lemma loop_traced:
  "k + length insts \<le> length outs \<Longrightarrow>
   \<exists>w' evs. dispatch_execute_loop (execute (traced_type idx ty)) db st outs k insts (w, log)
               = Some (w', log @ evs) \<and>
            list_all2 (\<lambda>io ev. \<exists>r. ev = Execute idx db st (fst io) (snd io) r)
              (zip insts (drop k outs)) evs"
proof (induction insts arbitrary: k w log)
  case Nil
  then show ?case by simp
next
  case (Cons inst rest)
  let ?r = "fst (execute ty db st inst (outs ! k) w)"
  let ?w1 = "snd (execute ty db st inst (outs ! k) w)"
  let ?ev = "Execute idx db st inst (outs ! k) ?r"
  from Cons.prems have k: "k < length outs" and k': "Suc k + length rest \<le> length outs"
    by simp_all
  from Cons.IH [OF k', of ?w1 "log @ [?ev]"] obtain w' evs where
    run: "dispatch_execute_loop (execute (traced_type idx ty)) db st outs (Suc k) rest
            (?w1, log @ [?ev]) = Some (w', (log @ [?ev]) @ evs)"
    and evs: "list_all2 (\<lambda>io ev. \<exists>r. ev = Execute idx db st (fst io) (snd io) r)
                (zip rest (drop (Suc k) outs)) evs"
    by blast
  have dr: "drop k outs = outs ! k # drop (Suc k) outs"
    using k by (simp add: Cons_nth_drop_Suc)
  have "dispatch_execute_loop (execute (traced_type idx ty)) db st outs k (inst # rest) (w, log)
          = Some (w', log @ (?ev # evs))"
    using k run by (simp add: execute_traced)
  moreover have "list_all2 (\<lambda>io ev. \<exists>r. ev = Execute idx db st (fst io) (snd io) r)
                   (zip (inst # rest) (drop k outs)) (?ev # evs)"
    using evs by (simp add: dr)
  ultimately show ?case by blast
qed



lemma executed_append: "executed (xs @ ys) = executed xs @ executed ys"
  by (induction xs rule: executed.induct) simp_all

lemma executed_execs:
  "list_all2 (\<lambda>io ev. \<exists>r. ev = Execute idx db st (fst io) (snd io) r) ios evs \<Longrightarrow>
   executed evs = ios"
  by (induction ios evs rule: list_all2_induct) auto

lemma execs_weaken:
  "list_all2 (\<lambda>io ev. \<exists>r. ev = Execute idx db st (fst io) (snd io) r) (zip p os) evs \<Longrightarrow>
   length p \<le> length os \<Longrightarrow>
   list_all2 (\<lambda>instance c. \<exists>out r. c = Execute idx db st instance out r) p evs"
proof (induction p arbitrary: os evs)
  case Nil
  then show ?case by simp
next
  case (Cons x p)
  then obtain o1 os' where os: "os = o1 # os'" by (cases os) auto
  with Cons.prems obtain e evs' where evs: "evs = e # evs'"
    by (cases evs) auto
  with Cons os show ?case by auto
qed

lemma registered_same_type:
  "type_id x = type_id y \<Longrightarrow> registered qtl x = registered qtl y"
  by (simp add: registered_def query_instance_get_type_def)

lemma set_callback_unfold:
  assumes "p \<noteq> []" and "query_type_list d (type_id (hd p)) = Some ty"
  shows "query_dispatcher_query_set_callback d p w =
     (case (case generate_statistics ty of None \<Rightarrow> (None, w)
            | Some g \<Rightarrow> g (database d) p w) of
        (statistics, w1) \<Rightarrow>
          (case dispatch_execute_loop (execute ty) (database d) statistics (outputs d)
                  (i_done d) p w1 of
             None \<Rightarrow> None
           | Some w2 \<Rightarrow>
               Some (0, d\<lparr>i_done := i_done d + length p\<rparr>,
                     (case free_statistics ty of None \<Rightarrow> w2 | Some f \<Rightarrow> f statistics w2))))"
proof (cases p)
  case Nil
  with assms show ?thesis by simp
next
  case (Cons first rest)
  from assms(2) show ?thesis
    unfolding Cons
    by (simp add: query_dispatcher_query_set_callback_def query_type_list_get_by_index_def
        query_instance_get_type_def query_type_get_generate_statistics_callback_def
        query_type_get_free_statistics_callback_def query_type_get_execute_callback_def Let_def)
qed

lemma set_callback_unknown:
  "p \<noteq> [] \<Longrightarrow> query_type_list d (type_id (hd p)) = None \<Longrightarrow>
   query_dispatcher_query_set_callback d p w = Some (0, d, w)"
  by (cases p)
    (simp_all add: query_dispatcher_query_set_callback_def query_type_list_get_by_index_def
      query_instance_get_type_def)

lemma set_callback_traced:
  fixes d :: "('db, 'a, 'st, 'out, 'w \<times> ('db, 'a, 'st, 'out) call list) query_dispatcher_data"
  assumes qtl: "query_type_list d = traced_list qtl"
    and p: "p \<noteq> []"
    and len: "i_done d + length p \<le> length (outputs d)"
  shows "\<exists>w' seg. query_dispatcher_query_set_callback d p (w, log) =
            Some (0, d\<lparr>i_done := i_done d + (if registered qtl (hd p) then length p else 0)\<rparr>,
                  (w', log @ seg)) \<and>
          partition_calls qtl (database d) p seg \<and>
          executed seg = (if registered qtl (hd p)
                          then zip p (drop (i_done d) (outputs d)) else [])"
proof (cases "qtl (type_id (hd p))")
  case None
  then have "query_type_list d (type_id (hd p)) = None"
    using qtl by (simp add: traced_list_def)
  from set_callback_unknown [OF p this, of "(w, log)"] None show ?thesis
    by (simp add: partition_calls_def registered_def query_type_list_get_by_index_def
        query_instance_get_type_def)
next
  case (Some ty)
  let ?idx = "type_id (hd p)"
  let ?db = "database d"
  have known: "query_type_list d ?idx = Some (traced_type ?idx ty)"
    using qtl Some by (simp add: traced_list_def)
  obtain st w1 log1 where gen:
    "(case generate_statistics (traced_type ?idx ty) of None \<Rightarrow> (None, (w, log))
      | Some g \<Rightarrow> g ?db p (w, log)) = (st, (w1, log1))"
    by (metis prod.exhaust)
  have log1: "log1 = log @ (if generate_statistics ty = None then []
                            else [GenerateStatistics ?idx ?db p st])"
    and stn: "generate_statistics ty = None \<longrightarrow> st = None"
    using gen by (auto simp: traced_type_def split: option.splits)
  from loop_traced [OF len, of ?idx ty ?db st w1 log1] obtain w2 evs where
    run: "dispatch_execute_loop (execute (traced_type ?idx ty)) ?db st (outputs d) (i_done d) p
            (w1, log1) = Some (w2, log1 @ evs)"
    and evs: "list_all2 (\<lambda>io ev. \<exists>r. ev = Execute ?idx ?db st (fst io) (snd io) r)
                (zip p (drop (i_done d) (outputs d))) evs"
    by blast
  obtain w3 log3 where fr:
    "(case free_statistics (traced_type ?idx ty) of None \<Rightarrow> (w2, log1 @ evs)
      | Some f \<Rightarrow> f st (w2, log1 @ evs)) = (w3, log3)"
    by (metis prod.exhaust)
  have log3: "log3 = log1 @ evs @ (if free_statistics ty = None then []
                                    else [FreeStatistics ?idx st])"
    using fr by (auto simp: traced_type_def split: option.splits)
  let ?seg = "(if generate_statistics ty = None then [] else [GenerateStatistics ?idx ?db p st])
              @ evs @ (if free_statistics ty = None then [] else [FreeStatistics ?idx st])"
  have "query_dispatcher_query_set_callback d p (w, log) =
          Some (0, d\<lparr>i_done := i_done d + length p\<rparr>, (w3, log3))"
    by (simp only: set_callback_unfold [OF p known] gen run fr prod.case option.case)
  then have res: "query_dispatcher_query_set_callback d p (w, log) =
          Some (0, d\<lparr>i_done := i_done d + length p\<rparr>, (w3, log @ ?seg))"
    by (simp add: log3 log1)
  have lenp: "length p \<le> length (drop (i_done d) (outputs d))"
    using len by simp
  have pc: "partition_calls qtl ?db p ?seg"
    unfolding partition_calls_def using Some stn execs_weaken [OF evs lenp]
    by auto
  have ex: "executed ?seg = zip p (drop (i_done d) (outputs d))"
    using executed_execs [OF evs] by (simp add: executed_append)
  have reg: "registered qtl (hd p)"
    using Some by (simp add: registered_def query_type_list_get_by_index_def
        query_instance_get_type_def)
  show ?thesis
    using res pc ex reg by (intro exI [of _ w3] exI [of _ ?seg]) simp
qed



lemma concat_partition_by_type: "concat (partition_by_type xs) = xs"
  by (induction xs rule: partition_by_type.induct) simp_all

lemma takeWhile_same_type:
  "y \<in> set (takeWhile (\<lambda>y. type_id y = type_id x) xs) \<Longrightarrow> type_id y = type_id x"
  using set_takeWhileD by fastforce

lemma first_set_same_type:
  "x # takeWhile (\<lambda>y. type_id y = type_id x) xs \<noteq> [] \<and>
   (\<forall>z\<in>set (x # takeWhile (\<lambda>y. type_id y = type_id x) xs).
      type_id z = type_id (hd (x # takeWhile (\<lambda>y. type_id y = type_id x) xs)))"
proof (intro conjI ballI)
  show "x # takeWhile (\<lambda>y. type_id y = type_id x) xs \<noteq> []" by simp
next
  fix z assume "z \<in> set (x # takeWhile (\<lambda>y. type_id y = type_id x) xs)"
  then have "z = x \<or> z \<in> set (takeWhile (\<lambda>y. type_id y = type_id x) xs)" by simp
  then have "type_id z = type_id x" using takeWhile_same_type by blast
  then show "type_id z = type_id (hd (x # takeWhile (\<lambda>y. type_id y = type_id x) xs))"
    by simp
qed

lemma partition_by_type_sets:
  "p \<in> set (partition_by_type xs) \<Longrightarrow> p \<noteq> [] \<and> (\<forall>x\<in>set p. type_id x = type_id (hd p))"
proof (induction xs rule: partition_by_type.induct)
  case 1
  then show ?case by simp
next
  case (2 x xs)
  from "2.prems" have
    "p = x # takeWhile (\<lambda>y. type_id y = type_id x) xs \<or>
     p \<in> set (partition_by_type (dropWhile (\<lambda>y. type_id y = type_id x) xs))"
    by simp
  then show ?case
  proof
    assume first: "p = x # takeWhile (\<lambda>y. type_id y = type_id x) xs"
    show ?thesis unfolding first by (rule first_set_same_type)
  next
    assume "p \<in> set (partition_by_type (dropWhile (\<lambda>y. type_id y = type_id x) xs))"
    then show ?thesis by (rule "2.IH")
  qed
qed

lemma zip_take_same: "zip xs (take (length xs) ys) = zip xs ys"
proof (induction xs arbitrary: ys)
  case Nil
  then show ?case by simp
next
  case (Cons x xs)
  then show ?case by (cases ys) simp_all
qed

lemma filter_registered_set:
  assumes "\<forall>x\<in>set p. type_id x = type_id (hd p)"
  shows "filter (registered qtl) p = (if registered qtl (hd p) then p else [])"
proof -
  have same: "\<forall>x\<in>set p. registered qtl x = registered qtl (hd p)"
  proof
    fix x assume "x \<in> set p"
    with assms have "type_id x = type_id (hd p)" by (rule bspec)
    then show "registered qtl x = registered qtl (hd p)" by (rule registered_same_type)
  qed
  show ?thesis
  proof (cases "registered qtl (hd p)")
    case True
    with same have "\<forall>x\<in>set p. registered qtl x" by blast
    then have "filter (registered qtl) p = p" by (simp add: filter_id_conv)
    with True show ?thesis by simp
  next
    case False
    with same have "\<forall>x\<in>set p. \<not> registered qtl x" by blast
    then have "filter (registered qtl) p = []" by (simp add: filter_empty_conv)
    with False show ?thesis by simp
  qed
qed



lemma iter_type_sets_traced:
  fixes d :: "('db, 'a, 'st, 'out, 'w \<times> ('db, 'a, 'st, 'out) call list) query_dispatcher_data"
  assumes "query_type_list d = traced_list qtl"
    and "\<forall>p\<in>set parts. p \<noteq> [] \<and> (\<forall>x\<in>set p. type_id x = type_id (hd p))"
    and "i_done d + length (concat parts) \<le> length (outputs d)"
  shows "\<exists>d' w' segs.
           iter_type_sets query_dispatcher_query_set_callback d parts (w, log) =
             Some (0, d', (w', log @ concat segs)) \<and>
           list_all2 (partition_calls qtl (database d)) parts segs \<and>
           executed (concat segs) =
             zip (filter (registered qtl) (concat parts)) (drop (i_done d) (outputs d))"
  using assms
proof (induction parts arbitrary: d w log)
  case Nil
  then show ?case by simp
next
  case (Cons p ps)
  let ?k = "i_done d"
  let ?n = "if registered qtl (hd p) then length p else 0"
  let ?d1 = "d\<lparr>i_done := ?k + ?n\<rparr>"
  have "p \<in> set (p # ps)" by simp
  with Cons.prems(2) have "p \<noteq> [] \<and> (\<forall>x\<in>set p. type_id x = type_id (hd p))"
    by (rule bspec)
  then have p: "p \<noteq> []" and uni: "\<forall>x\<in>set p. type_id x = type_id (hd p)"
    by (rule conjunct1, rule conjunct2)
  from Cons.prems(3) have lenp: "?k + length p \<le> length (outputs d)"
    by simp
  from set_callback_traced [OF Cons.prems(1) p lenp, of w log] obtain w1 seg where
    cb: "query_dispatcher_query_set_callback d p (w, log) = Some (0, ?d1, (w1, log @ seg))"
    and pc: "partition_calls qtl (database d) p seg"
    and ex: "executed seg = (if registered qtl (hd p) then zip p (drop ?k (outputs d)) else [])"
    by blast
  have q1: "query_type_list ?d1 = traced_list qtl" using Cons.prems(1) by simp
  have ps: "\<forall>p\<in>set ps. p \<noteq> [] \<and> (\<forall>x\<in>set p. type_id x = type_id (hd p))"
  proof
    fix q assume "q \<in> set ps"
    then have "q \<in> set (p # ps)" by simp
    with Cons.prems(2) show "q \<noteq> [] \<and> (\<forall>x\<in>set q. type_id x = type_id (hd q))"
      by (rule bspec)
  qed
  have len1: "i_done ?d1 + length (concat ps) \<le> length (outputs ?d1)"
    using Cons.prems(3) by simp
  from Cons.IH [OF q1 ps len1, of w1 "log @ seg"] obtain d' w' segs where
    run: "iter_type_sets query_dispatcher_query_set_callback ?d1 ps (w1, log @ seg) =
            Some (0, d', (w', (log @ seg) @ concat segs))"
    and all: "list_all2 (partition_calls qtl (database ?d1)) ps segs"
    and exs: "executed (concat segs) =
                zip (filter (registered qtl) (concat ps)) (drop (i_done ?d1) (outputs ?d1))"
    by blast
  have res: "iter_type_sets query_dispatcher_query_set_callback d (p # ps) (w, log) =
               Some (0, d', (w', log @ concat (seg # segs)))"
    using cb run by simp
  have all': "list_all2 (partition_calls qtl (database d)) (p # ps) (seg # segs)"
    using pc all by simp
  note filt = filter_registered_set [OF uni, of qtl]
  have ex': "executed (concat (seg # segs)) =
               zip (filter (registered qtl) (concat (p # ps))) (drop ?k (outputs d))"
  proof (cases "registered qtl (hd p)")
    case True
    have "executed (concat (seg # segs)) =
            zip p (drop ?k (outputs d)) @
            zip (filter (registered qtl) (concat ps)) (drop (?k + length p) (outputs d))"
      using True ex exs by (simp add: executed_append)
    also have "\<dots> = zip (p @ filter (registered qtl) (concat ps)) (drop ?k (outputs d))"
      by (simp add: zip_append1 zip_take_same add.commute)
    finally show ?thesis using True filt by simp
  next
    case False
    then show ?thesis using ex exs filt by (simp add: executed_append)
  qed
  from res all' ex' show ?case by blast
qed

lemma dispatch_list_traced:
  assumes "length insts \<le> length outs"
  shows "\<exists>w' segs.
           query_dispatcher_dispatch_list db insts (traced_list qtl) outs (w, []) =
             Some (w', concat segs) \<and>
           list_all2 (partition_calls qtl db) (partition_by_type insts) segs \<and>
           executed (concat segs) = zip (filter (registered qtl) insts) outs"
proof -
  let ?d = "\<lparr>database = db, query_type_list = traced_list qtl, outputs = outs, i_done = 0\<rparr>"
  have q: "query_type_list ?d = traced_list qtl" by simp
  have sets: "\<forall>p\<in>set (partition_by_type insts).
                p \<noteq> [] \<and> (\<forall>x\<in>set p. type_id x = type_id (hd p))"
    using partition_by_type_sets by blast
  have len: "i_done ?d + length (concat (partition_by_type insts)) \<le> length (outputs ?d)"
    using assms by (simp add: concat_partition_by_type)
  from iter_type_sets_traced [OF q sets len, of w "[]"] obtain d' w' segs where
    run: "iter_type_sets query_dispatcher_query_set_callback ?d (partition_by_type insts) (w, []) =
            Some (0, d', (w', [] @ concat segs))"
    and all: "list_all2 (partition_calls qtl (database ?d)) (partition_by_type insts) segs"
    and ex: "executed (concat segs) =
               zip (filter (registered qtl) (concat (partition_by_type insts)))
                 (drop (i_done ?d) (outputs ?d))"
    by blast
  have "query_dispatcher_dispatch_list db insts (traced_list qtl) outs (w, []) =
          Some (w', concat segs)"
    using run by (simp add: query_dispatcher_dispatch_list_def query_instance_list_iter_types_def)
  moreover have "list_all2 (partition_calls qtl db) (partition_by_type insts) segs"
    using all by simp
  moreover have "executed (concat segs) = zip (filter (registered qtl) insts) outs"
    using ex by (simp add: concat_partition_by_type)
  ultimately show ?thesis by blast
qed

lemma example_partition:
  "partition_by_type [example_instance 0, example_instance 0] =
     [[example_instance 0, example_instance 0]]"
  by (simp add: example_instance_def)

text \<open>
  C1, as stated, fails: for a type whose \<open>generate_statistics\<close> is not \<open>NULL\<close> and
  whose \<open>free_statistics\<close> is \<open>NULL\<close>, the dispatcher skips the call
  (\<open>if (free_stats) free_stats(statistics)\<close>). Two instances of type \<open>0\<close> of the
  example registry give one \<open>generate_statistics\<close>, two \<open>execute\<close> and no
  \<open>free_statistics\<close>.
\<close>

theorem dispatch_without_free_statistics_counterexample:
  "query_dispatcher_dispatch_list () [example_instance 0, example_instance 0]
     (traced_list example_types) [10, 11] ((), []) =
     Some ((),
       [GenerateStatistics 0 () [example_instance 0, example_instance 0] (Some 2),
        Execute 0 () (Some 2) (example_instance 0) 10 1,
        Execute 0 () (Some 2) (example_instance 0) 11 1]) \<and>
   (\<forall>st. FreeStatistics 0 st \<notin>
      set [GenerateStatistics 0 () [example_instance 0, example_instance 0] (Some (2::nat)),
           Execute 0 () (Some 2) (example_instance 0) (10::nat) 1,
           Execute 0 () (Some 2) (example_instance 0) 11 1])"
  by (simp add: query_dispatcher_dispatch_list_def query_instance_list_iter_types_def
      example_partition query_dispatcher_query_set_callback_def
      query_type_list_get_by_index_def query_instance_get_type_def
      query_type_get_generate_statistics_callback_def
      query_type_get_free_statistics_callback_def query_type_get_execute_callback_def
      traced_list_def traced_type_def example_types_def example_type_no_free_def
      query_type_create_def example_generate_def example_execute_failing_def
      example_instance_def)

text \<open>
  C1 (amended): when the array of outputs has an output for every instance, a dispatch
  of a list returns, and the log of its calls is the concatenation of one segment per
  contiguous same-type partition of the list, in order, each as \<open>partition_calls\<close>
  describes: for a known type with a \<open>generate_statistics\<close> callback, that callback is
  called exactly once, over the whole partition; then \<open>execute\<close> is called once for
  each instance of the partition on the statistics object that call returned; then
  \<open>free_statistics\<close> is called once on that object, when the type has that callback.
\<close>

theorem dispatch_list_calls_per_partition:
  assumes "length insts \<le> length outs"
  shows "\<exists>w' segs.
           query_dispatcher_dispatch_list db insts (traced_list qtl) outs (w, []) =
             Some (w', concat segs) \<and>
           list_all2 (partition_calls qtl db) (partition_by_type insts) segs"
proof -
  from dispatch_list_traced [OF assms, of db qtl w] obtain w' segs where
    "query_dispatcher_dispatch_list db insts (traced_list qtl) outs (w, []) =
       Some (w', concat segs)"
    and "list_all2 (partition_calls qtl db) (partition_by_type insts) segs"
    by (elim exE conjE)
  then show ?thesis by (intro exI conjI)
qed

theorem dispatch_list_calls_per_partition_witness:
  "length [example_instance 1, example_instance 1, example_instance 0] \<le> length [10, 11, 12 :: nat] \<and>
   (\<exists>w' segs.
      query_dispatcher_dispatch_list ()
        [example_instance 1, example_instance 1, example_instance 0]
        (traced_list example_types) [10, 11, 12] ((), []) = Some (w', concat segs) \<and>
      list_all2 (partition_calls example_types ())
        (partition_by_type [example_instance 1, example_instance 1, example_instance 0]) segs)"
  using dispatch_list_calls_per_partition
    [of "[example_instance 1, example_instance 1, example_instance 0]" "[10, 11, 12]"
        "()" example_types "()"]
  by simp

text \<open>
  C5: the value an \<open>execute\<close> callback returns never stops a dispatch. Whatever the
  callbacks of the types return, every instance of a known type is executed exactly
  once, in list order, and the k-th executed instance is given the k-th output.
\<close>

theorem dispatch_list_executes_every_instance:
  assumes "length insts \<le> length outs"
  shows "\<exists>w' log.
           query_dispatcher_dispatch_list db insts (traced_list qtl) outs (w, []) =
             Some (w', log) \<and>
           executed log = zip (filter (registered qtl) insts) outs"
proof -
  from dispatch_list_traced [OF assms, of db qtl w] obtain w' segs where
    "query_dispatcher_dispatch_list db insts (traced_list qtl) outs (w, []) =
       Some (w', concat segs)"
    and "executed (concat segs) = zip (filter (registered qtl) insts) outs"
    by (elim exE conjE)
  then show ?thesis by (intro exI conjI)
qed

theorem dispatch_list_executes_every_instance_witness:
  "length [example_instance 1, example_instance 1, example_instance 0] \<le> length [10, 11, 12 :: nat] \<and>
   (\<exists>w' log.
      query_dispatcher_dispatch_list ()
        [example_instance 1, example_instance 1, example_instance 0]
        (traced_list example_types) [10, 11, 12] ((), []) = Some (w', log) \<and>
      executed log =
        [(example_instance 1, 10), (example_instance 1, 11), (example_instance 0, 12)])"
  using dispatch_list_executes_every_instance
    [of "[example_instance 1, example_instance 1, example_instance 0]" "[10, 11, 12]"
        "()" example_types "()"]
  by (simp add: registered_def query_type_list_get_by_index_def query_instance_get_type_def
      example_types_def example_instance_def)

text \<open>
  C10: dispatching a single instance is dispatching the list that holds only that
  instance, with the same database and types and the array of one output: the two
  runs are the same function of the world, so they make the same calls.
\<close>

theorem dispatch_single_is_dispatch_list:
  "query_dispatcher_dispatch_single db instance qtl output w =
     query_dispatcher_dispatch_list db [instance] qtl [output] w"
  by (simp add: query_dispatcher_dispatch_single_def query_instance_list_add_def
      query_instance_list_create_def)

section \<open>Properties of the block pool\<close>

lemma pool_alloc_item_keeps:
  assumes "pool_alloc_item ok junk pool = (r, pool')"
    and "pool_get pool h = Some v"
  shows "pool_get pool' h = Some v"
proof -
  obtain b i where h: "h = (b, i)" by (cases h)
  from assms(2) have b: "b < length (blocks pool)" and i: "i < length (blocks pool ! b)"
    and v: "blocks pool ! b ! i = v"
    by (auto simp: pool_get_def h split: if_splits)
  from b have ne: "blocks pool \<noteq> []" by auto
  show ?thesis
  proof (cases "block_capacity pool \<le> length (last (blocks pool))")
    case True
    with assms(1) ne have "pool' = pool \<or> blocks pool' = blocks pool @ [[junk]]"
      by (auto simp: pool_alloc_item_def split: if_splits)
    then show ?thesis
      using assms(2) b i v by (auto simp: pool_get_def h nth_append)
  next
    case False
    with assms(1) ne have bl: "blocks pool' = butlast (blocks pool) @ [last (blocks pool) @ [junk]]"
      by (auto simp: pool_alloc_item_def)
    show ?thesis
    proof (cases "b = length (blocks pool) - 1")
      case True
      then have lb: "blocks pool ! b = last (blocks pool)"
        using ne by (simp add: last_conv_nth)
      have "blocks pool' ! b = last (blocks pool) @ [junk]"
        using True ne by (simp add: bl nth_append)
      then show ?thesis
        using b i v lb by (simp add: pool_get_def h bl nth_append)
    next
      case False
      then have "b < length (butlast (blocks pool))" using b by simp
      then have "blocks pool' ! b = blocks pool ! b"
        by (simp add: bl nth_append nth_butlast)
      then show ?thesis
        using b i v by (simp add: pool_get_def h bl)
    qed
  qed
qed

lemma pool_alloc_item_returned:
  assumes "pool_alloc_item ok junk pool = (Some h, pool')"
  shows "pool_get pool' h = Some junk" and "pool_get pool h = None"
    and "pool_items pool' = pool_items pool @ [junk]"
proof -
  show "pool_get pool' h = Some junk"
    using assms
    by (auto simp: pool_alloc_item_def pool_get_def nth_append split: if_splits)
  show "pool_get pool h = None"
    using assms
    by (auto simp: pool_alloc_item_def pool_get_def last_conv_nth split: if_splits)
  show "pool_items pool' = pool_items pool @ [junk]"
  proof (cases "blocks pool = [] \<or> block_capacity pool \<le> length (last (blocks pool))")
    case True
    with assms show ?thesis
      by (auto simp: pool_alloc_item_def pool_items_def split: if_splits)
  next
    case False
    then have ne: "blocks pool \<noteq> []" by simp
    from False assms have bl: "blocks pool' = butlast (blocks pool) @ [last (blocks pool) @ [junk]]"
      by (auto simp: pool_alloc_item_def)
    have "concat (blocks pool) = concat (butlast (blocks pool) @ [last (blocks pool)])"
      using ne by simp
    then show ?thesis by (simp add: pool_items_def bl)
  qed
qed

lemma pool_alloc_item_failed:
  "pool_alloc_item ok junk pool = (None, pool') \<Longrightarrow> pool' = pool"
  by (auto simp: pool_alloc_item_def split: if_splits)


lemma pool_apply_keeps:
  "pool_apply pool op = (r, pool') \<Longrightarrow> pool_get pool h = Some v \<Longrightarrow> pool_get pool' h = Some v"
  by (cases op) (auto simp: pool_put_item_def intro: pool_alloc_item_keeps)

lemma pool_apply_returned:
  "pool_apply pool op = (Some h, pool') \<Longrightarrow> \<exists>v. pool_get pool' h = Some v"
  by (cases op) (auto simp: pool_put_item_def dest: pool_alloc_item_returned(1))

lemma pool_run_keeps:
  "pool_run pool ops = (hs, pool') \<Longrightarrow> pool_get pool h = Some v \<Longrightarrow> pool_get pool' h = Some v"
proof (induction ops arbitrary: pool hs)
  case Nil
  then show ?case by simp
next
  case (Cons op ops)
  obtain r p1 where step: "pool_apply pool op = (r, p1)" by (cases "pool_apply pool op")
  obtain hs' where rest: "pool_run p1 ops = (hs', pool')"
    using Cons.prems(1) step by (cases "pool_run p1 ops") simp
  from pool_apply_keeps [OF step Cons.prems(2)] have "pool_get p1 h = Some v" .
  with Cons.IH [OF rest] show ?case .
qed

lemma pool_run_returned:
  "pool_run pool ops = (hs, pool') \<Longrightarrow> Some h \<in> set hs \<Longrightarrow> \<exists>v. pool_get pool' h = Some v"
proof (induction ops arbitrary: pool hs)
  case Nil
  then show ?case by simp
next
  case (Cons op ops)
  obtain r p1 where step: "pool_apply pool op = (r, p1)" by (cases "pool_apply pool op")
  obtain hs' where rest: "pool_run p1 ops = (hs', pool')"
    using Cons.prems(1) step by (cases "pool_run p1 ops") simp
  have hs: "hs = r # hs'" using Cons.prems(1) step rest by simp
  with Cons.prems(2) consider "r = Some h" | "Some h \<in> set hs'" by auto
  then show ?case
  proof cases
    case 1
    with step pool_apply_returned obtain v where "pool_get p1 h = Some v" by blast
    with pool_run_keeps [OF rest] show ?thesis by blast
  next
    case 2
    with Cons.IH [OF rest] show ?thesis .
  qed
qed

lemma blocks_extended_refl: "blocks_extended bs bs"
  by (simp add: blocks_extended_def)

lemma blocks_extended_trans:
  assumes "blocks_extended bs1 bs2" and "blocks_extended bs2 bs3"
  shows "blocks_extended bs1 bs3"
proof -
  have "take (length (bs1 ! b)) (bs3 ! b) = bs1 ! b" if b: "b < length bs1" for b
  proof -
    from assms(1) b have t12: "take (length (bs1 ! b)) (bs2 ! b) = bs1 ! b"
      and b2: "b < length bs2"
      by (simp_all add: blocks_extended_def)
    from assms(2) b2 have t23: "take (length (bs2 ! b)) (bs3 ! b) = bs2 ! b"
      by (simp add: blocks_extended_def)
    have "length (take (length (bs1 ! b)) (bs2 ! b)) = length (bs1 ! b)"
      using t12 by simp
    then have le: "length (bs1 ! b) \<le> length (bs2 ! b)"
      by simp
    have "take (length (bs1 ! b)) (bs3 ! b) =
          take (length (bs1 ! b)) (take (length (bs2 ! b)) (bs3 ! b))"
      using le by (simp add: min_absorb1)
    with t23 t12 show ?thesis by simp
  qed
  with assms show ?thesis by (auto simp: blocks_extended_def)
qed

lemma pool_alloc_item_extends:
  assumes "pool_alloc_item ok junk pool = (r, pool')"
  shows "blocks_extended (blocks pool) (blocks pool')"
    and "block_capacity pool' = block_capacity pool"
proof -
  show "block_capacity pool' = block_capacity pool"
    using assms by (auto simp: pool_alloc_item_def split: if_splits)
  show "blocks_extended (blocks pool) (blocks pool')"
  proof (cases "blocks pool = [] \<or> block_capacity pool \<le> length (last (blocks pool))")
    case True
    with assms have "blocks pool' = blocks pool \<or> blocks pool' = blocks pool @ [[junk]]"
      by (auto simp: pool_alloc_item_def split: if_splits)
    then show ?thesis by (auto simp: blocks_extended_def nth_append)
  next
    case False
    then have ne: "blocks pool \<noteq> []" by simp
    from False assms have bl: "blocks pool' = butlast (blocks pool) @ [last (blocks pool) @ [junk]]"
      by (auto simp: pool_alloc_item_def)
    have "take (length (blocks pool ! b)) (blocks pool' ! b) = blocks pool ! b"
      if b: "b < length (blocks pool)" for b
    proof (cases "b = length (blocks pool) - 1")
      case True
      then have "blocks pool ! b = last (blocks pool)" using ne by (simp add: last_conv_nth)
      moreover have "blocks pool' ! b = last (blocks pool) @ [junk]"
        using True ne by (simp add: bl nth_append)
      ultimately show ?thesis by simp
    next
      case False
      then have "b < length (butlast (blocks pool))" using b by simp
      then have "blocks pool' ! b = blocks pool ! b"
        by (simp add: bl nth_append nth_butlast)
      then show ?thesis by simp
    qed
    moreover have "length (blocks pool) \<le> length (blocks pool')" using ne by (simp add: bl)
    ultimately show ?thesis by (simp add: blocks_extended_def)
  qed
qed

lemma pool_apply_extends:
  assumes "pool_apply pool op = (r, pool')"
  shows "blocks_extended (blocks pool) (blocks pool')"
    and "block_capacity pool' = block_capacity pool"
proof -
  obtain ok x where "op = AllocItem ok x \<or> op = PutItem ok x" by (cases op) auto
  with assms have a: "pool_alloc_item ok x pool = (r, pool')"
    by (auto simp: pool_put_item_def)
  from pool_alloc_item_extends(1) [OF a]
  show "blocks_extended (blocks pool) (blocks pool')" .
  from pool_alloc_item_extends(2) [OF a]
  show "block_capacity pool' = block_capacity pool" .
qed

lemma pool_run_extends:
  "pool_run pool ops = (hs, pool') \<Longrightarrow>
   blocks_extended (blocks pool) (blocks pool') \<and> block_capacity pool' = block_capacity pool"
proof (induction ops arbitrary: pool hs)
  case Nil
  then show ?case by (simp add: blocks_extended_refl)
next
  case (Cons op ops)
  obtain r p1 where step: "pool_apply pool op = (r, p1)" by (cases "pool_apply pool op")
  obtain hs' where rest: "pool_run p1 ops = (hs', pool')"
    using Cons.prems(1) step by (cases "pool_run p1 ops") simp
  from pool_apply_extends [OF step] Cons.IH [OF rest] show ?case
    using blocks_extended_trans by auto
qed

text \<open>
  C9: in a run of \<open>pool_alloc_item\<close> and \<open>pool_put_item\<close> calls on a pool (the
  pool is never emptied: the operations are allocations only), every item pointer an
  earlier call returned can still be read after any number of later allocations, and
  reads as it did before them: the later allocations keep every block at its index and
  every slot in use at its index in its block, they only take a further slot of the
  current block into use or append a block, and the capacity of the blocks does not
  change.
\<close>

theorem pool_handles_stable:
  assumes "pool_run pool ops1 = (hs1, pool1)"
    and "pool_run pool1 ops2 = (hs2, pool2)"
    and "Some h \<in> set hs1"
  shows "(\<exists>v. pool_get pool1 h = Some v \<and> pool_get pool2 h = Some v) \<and>
         blocks_extended (blocks pool1) (blocks pool2) \<and>
         block_capacity pool2 = block_capacity pool1"
proof -
  from pool_run_returned [OF assms(1) assms(3)] obtain v where v: "pool_get pool1 h = Some v" ..
  with pool_run_keeps [OF assms(2)] have "pool_get pool2 h = Some v" .
  with v have "\<exists>v. pool_get pool1 h = Some v \<and> pool_get pool2 h = Some v" by blast
  with pool_run_extends [OF assms(2)] show ?thesis by blast
qed

theorem pool_handles_stable_witness:
  "pool_run (pool_create 4 2) [PutItem True 10, AllocItem True 0] =
     ([Some (0, 0), Some (0, 1)], example_pool) \<and>
   pool_run example_pool [PutItem True 11, PutItem True 12, PutItem False 13, PutItem True 14] =
     ([Some (1, 0), Some (1, 1), None, Some (2, 0)], example_pool_later) \<and>
   Some (0, 1) \<in> set [Some (0, 0), Some (0, 1 :: nat)] \<and>
   (\<exists>v. pool_get example_pool (0, 1) = Some v \<and> pool_get example_pool_later (0, 1) = Some v) \<and>
   blocks_extended (blocks example_pool) (blocks example_pool_later) \<and>
   block_capacity example_pool_later = block_capacity example_pool"
proof -
  have r1: "pool_run (pool_create 4 2) [PutItem True 10, AllocItem True 0] =
     ([Some (0, 0), Some (0, 1)], example_pool)"
    by (simp add: pool_create_def pool_put_item_def pool_alloc_item_def example_pool_def)
  have r2: "pool_run example_pool
       [PutItem True 11, PutItem True 12, PutItem False 13, PutItem True 14] =
     ([Some (1, 0), Some (1, 1), None, Some (2, 0)], example_pool_later)"
    by (simp add: pool_put_item_def pool_alloc_item_def example_pool_def example_pool_later_def)
  have r3: "Some (0, 1) \<in> set [Some (0, 0), Some (0, 1 :: nat)]" by simp
  from pool_handles_stable [OF r1 r2 r3] r1 r2 r3 show ?thesis by blast
qed

section \<open>Properties of the string pool without duplicates\<close>

lemma string_at_append:
  assumes "NUL \<in> set (drop p bytes)"
  shows "string_at (bytes @ extra) p = string_at bytes p"
proof -
  have "takeWhile (\<lambda>c. c \<noteq> NUL) (drop p bytes @ drop (p - length bytes) extra) =
             takeWhile (\<lambda>c. c \<noteq> NUL) (drop p bytes)"
    using assms by (intro takeWhile_append1 [of NUL]) simp_all
  then show ?thesis using assms by (simp add: string_at_def)
qed

lemma string_at_new:
  assumes "c_string s"
  shows "string_at (bytes @ s @ [NUL]) (length bytes) = Some s"
proof -
  have "\<forall>x\<in>set s. x \<noteq> NUL" using assms by (auto simp: c_string_def)
  then have "takeWhile (\<lambda>c. c \<noteq> NUL) (s @ [NUL]) = s"
    by simp
  then show ?thesis by (simp add: string_at_def)
qed

lemma string_at_terminated:
  "string_at bytes p = Some s \<Longrightarrow> NUL \<in> set (drop p bytes)"
  by (simp add: string_at_def split: if_splits)

lemma string_at_bytes:
  assumes "string_at bytes p = Some s"
  shows "take (Suc (length s)) (drop p bytes) = s @ [NUL]"
proof -
  let ?xs = "drop p bytes"
  from assms have nul: "NUL \<in> set ?xs" and s: "s = takeWhile (\<lambda>c. c \<noteq> NUL) ?xs"
    by (auto simp: string_at_def split: if_splits)
  have "dropWhile (\<lambda>c. c \<noteq> NUL) ?xs \<noteq> []" using nul by auto
  then obtain y ys where d: "dropWhile (\<lambda>c. c \<noteq> NUL) ?xs = y # ys"
    by (cases "dropWhile (\<lambda>c. c \<noteq> NUL) ?xs") auto
  have "\<not> (hd (dropWhile (\<lambda>c. c \<noteq> NUL) ?xs) \<noteq> NUL)"
    using \<open>dropWhile (\<lambda>c. c \<noteq> NUL) ?xs \<noteq> []\<close> by (rule hd_dropWhile)
  then have y: "y = NUL" using d by simp
  have "?xs = s @ NUL # ys"
    using takeWhile_dropWhile_id [of "\<lambda>c. c \<noteq> NUL" ?xs] d y s by simp
  then show ?thesis by simp
qed


lemma lookup_str_Some:
  assumes "g_hash_table_lookup_str bytes table str = Some d"
    and "\<forall>kv\<in>set table. snd kv = fst kv"
  shows "string_at bytes d = Some str"
proof -
  from assms(1) obtain kv where f: "find (\<lambda>kv. g_str_equal bytes (fst kv) str) table = Some kv"
    and d: "d = snd kv"
    by (auto simp: g_hash_table_lookup_str_def)
  from f have "kv \<in> set table" and "g_str_equal bytes (fst kv) str"
    by (auto simp: find_Some_iff)
  with assms(2) d show ?thesis by (simp add: g_str_equal_def)
qed

lemma lookup_str_None:
  "g_hash_table_lookup_str bytes table str = None \<longleftrightarrow>
     (\<forall>kv\<in>set table. string_at bytes (fst kv) \<noteq> Some str)"
  by (auto simp: g_hash_table_lookup_str_def find_None_iff g_str_equal_def)

lemma lookup_str_append_bytes:
  assumes "\<forall>kv\<in>set table. NUL \<in> set (drop (fst kv) bytes)"
  shows "g_hash_table_lookup_str (bytes @ extra) table str =
         g_hash_table_lookup_str bytes table str"
proof -
  have "find (\<lambda>kv. g_str_equal (bytes @ extra) (fst kv) str) table =
        find (\<lambda>kv. g_str_equal bytes (fst kv) str) table"
    using assms by (intro find_cong) (auto simp: g_str_equal_def string_at_append)
  then show ?thesis by (simp add: g_hash_table_lookup_str_def)
qed

lemma insert_str_absent:
  assumes "\<forall>kv\<in>set table. string_at bytes (fst kv) \<noteq> Some s"
    and "string_at bytes key = Some s"
  shows "g_hash_table_insert_str bytes table key v = table @ [(key, v)]"
  using assms by (induction table) auto

lemma lookup_str_last:
  assumes "\<forall>kv\<in>set table. string_at bytes (fst kv) \<noteq> Some s"
    and "string_at bytes key = Some s"
  shows "g_hash_table_lookup_str bytes (table @ [(key, v)]) s = Some v"
  using assms
  by (induction table) (auto simp: g_hash_table_lookup_str_def g_str_equal_def)

text \<open>What an insertion that finds nothing and allocates does.\<close>

lemma put_new:
  assumes inv: "no_duplicates_inv pool"
    and s: "c_string s"
    and miss: "g_hash_table_lookup_str (arena (strings pool)) (already_stored pool) s = None"
  shows "string_pool_no_duplicates_put True pool s =
           (Some (length (arena (strings pool))),
            pool\<lparr>strings := (strings pool)\<lparr>arena := arena (strings pool) @ s @ [NUL]\<rparr>,
                 already_stored := already_stored pool @
                   [(length (arena (strings pool)), length (arena (strings pool)))]\<rparr>)"
proof -
  let ?bytes = "arena (strings pool)"
  let ?new = "?bytes @ s @ [NUL]"
  have nulls: "\<forall>kv\<in>set (already_stored pool). NUL \<in> set (drop (fst kv) ?bytes)"
    using inv by (simp add: no_duplicates_inv_def)
  have old: "\<forall>kv\<in>set (already_stored pool). string_at ?bytes (fst kv) \<noteq> Some s"
    using miss by (simp add: lookup_str_None)
  have "\<forall>kv\<in>set (already_stored pool). string_at ?new (fst kv) \<noteq> Some s"
  proof
    fix kv assume kv: "kv \<in> set (already_stored pool)"
    with nulls have "string_at ?new (fst kv) = string_at ?bytes (fst kv)"
      by (simp add: string_at_append)
    with old kv show "string_at ?new (fst kv) \<noteq> Some s" by simp
  qed
  from insert_str_absent [OF this string_at_new [OF s]]
  have "g_hash_table_insert_str ?new (already_stored pool) (length ?bytes) (length ?bytes) =
          already_stored pool @ [(length ?bytes, length ?bytes)]" .
  then show ?thesis
    using miss by (simp add: string_pool_no_duplicates_put_def string_pool_put_def)
qed

lemma put_failed:
  assumes "g_hash_table_lookup_str (arena (strings pool)) (already_stored pool) s = None"
  shows "string_pool_no_duplicates_put False pool s = (None, pool)"
  using assms by (simp add: string_pool_no_duplicates_put_def string_pool_put_def)

lemma put_found:
  assumes "g_hash_table_lookup_str (arena (strings pool)) (already_stored pool) s = Some d"
  shows "string_pool_no_duplicates_put ok pool s = (Some d, pool)"
  using assms by (simp add: string_pool_no_duplicates_put_def)

lemma put_cases:
  assumes inv: "no_duplicates_inv pool" and s: "c_string s"
    and put: "string_pool_no_duplicates_put ok pool s = (r, pool')"
  shows "(\<exists>d. g_hash_table_lookup_str (arena (strings pool)) (already_stored pool) s = Some d \<and>
              r = Some d \<and> pool' = pool) \<or>
         (g_hash_table_lookup_str (arena (strings pool)) (already_stored pool) s = None \<and>
          \<not> ok \<and> r = None \<and> pool' = pool) \<or>
         (g_hash_table_lookup_str (arena (strings pool)) (already_stored pool) s = None \<and>
          ok \<and> r = Some (length (arena (strings pool))) \<and>
          pool' = pool\<lparr>strings := (strings pool)\<lparr>arena := arena (strings pool) @ s @ [NUL]\<rparr>,
                 already_stored := already_stored pool @
                   [(length (arena (strings pool)), length (arena (strings pool)))]\<rparr>)"
proof (cases "g_hash_table_lookup_str (arena (strings pool)) (already_stored pool) s")
  case None
  show ?thesis
  proof (cases ok)
    case True
    with put put_new [OF inv s None]
    have "r = Some (length (arena (strings pool)))"
      and "pool' = pool\<lparr>strings := (strings pool)\<lparr>arena := arena (strings pool) @ s @ [NUL]\<rparr>,
                 already_stored := already_stored pool @
                   [(length (arena (strings pool)), length (arena (strings pool)))]\<rparr>"
      by simp_all
    with None True show ?thesis by blast
  next
    case False
    with put put_failed [OF None] have "r = None" and "pool' = pool" by simp_all
    with None False show ?thesis by blast
  qed
next
  case (Some d)
  from put put_found [OF Some, of ok] have "r = Some d" and "pool' = pool" by simp_all
  with Some show ?thesis by blast
qed

lemma put_inv:
  assumes inv: "no_duplicates_inv pool" and s: "c_string s"
    and put: "string_pool_no_duplicates_put ok pool s = (r, pool')"
  shows "no_duplicates_inv pool'"
proof -
  from put_cases [OF inv s put] consider "pool' = pool"
    | "pool' = pool\<lparr>strings := (strings pool)\<lparr>arena := arena (strings pool) @ s @ [NUL]\<rparr>,
                 already_stored := already_stored pool @
                   [(length (arena (strings pool)), length (arena (strings pool)))]\<rparr>"
    by blast
  then show ?thesis
  proof cases
    case 1
    with inv show ?thesis by simp
  next
    case 2
    then show ?thesis using inv by (auto simp: no_duplicates_inv_def)
  qed
qed


lemma create_inv: "no_duplicates_inv (string_pool_no_duplicates_create capacity)"
  by (simp add: no_duplicates_inv_def string_pool_no_duplicates_create_def)

lemma puts_inv:
  assumes "no_duplicates_inv pool" and "\<forall>x\<in>set history. c_string (snd x)"
  shows "no_duplicates_inv (no_duplicates_puts pool history)"
  using assms
proof (induction history arbitrary: pool)
  case Nil
  then show ?case by simp
next
  case (Cons x xs)
  obtain r p1 where put: "string_pool_no_duplicates_put (fst x) pool (snd x) = (r, p1)"
    by (cases "string_pool_no_duplicates_put (fst x) pool (snd x)")
  from Cons.prems(2) have "c_string (snd x)" and rest: "\<forall>x\<in>set xs. c_string (snd x)"
    by simp_all
  from put_inv [OF Cons.prems(1) this(1) put] have "no_duplicates_inv p1" .
  from Cons.IH [OF this rest] put show ?case by simp
qed

text \<open>After an insertion that returned a pointer, a lookup of the string finds it.\<close>

lemma put_then_lookup:
  assumes inv: "no_duplicates_inv pool" and s: "c_string s"
    and put: "string_pool_no_duplicates_put ok pool s = (Some h, pool')"
  shows "g_hash_table_lookup_str (arena (strings pool')) (already_stored pool') s = Some h"
proof -
  let ?bytes = "arena (strings pool)"
  let ?new = "?bytes @ s @ [NUL]"
  from put_cases [OF inv s put] consider
      (found) "g_hash_table_lookup_str ?bytes (already_stored pool) s = Some h" "pool' = pool"
    | (new) "g_hash_table_lookup_str ?bytes (already_stored pool) s = None"
        "h = length ?bytes"
        "pool' = pool\<lparr>strings := (strings pool)\<lparr>arena := ?new\<rparr>,
                 already_stored := already_stored pool @ [(length ?bytes, length ?bytes)]\<rparr>"
    by auto
  then show ?thesis
  proof cases
    case found
    then show ?thesis by simp
  next
    case new
    have nulls: "\<forall>kv\<in>set (already_stored pool). NUL \<in> set (drop (fst kv) ?bytes)"
      using inv by (simp add: no_duplicates_inv_def)
    have old: "\<forall>kv\<in>set (already_stored pool). string_at ?bytes (fst kv) \<noteq> Some s"
      using new(1) by (simp add: lookup_str_None)
    have "\<forall>kv\<in>set (already_stored pool). string_at ?new (fst kv) \<noteq> Some s"
    proof
      fix kv assume kv: "kv \<in> set (already_stored pool)"
      with nulls have "string_at ?new (fst kv) = string_at ?bytes (fst kv)"
        by (simp add: string_at_append)
      with old kv show "string_at ?new (fst kv) \<noteq> Some s" by simp
    qed
    from lookup_str_last [OF this string_at_new [OF s], of "length ?bytes"]
    show ?thesis by (simp add: new(2) new(3))
  qed
qed

lemma put_string_at:
  assumes inv: "no_duplicates_inv pool" and s: "c_string s"
    and put: "string_pool_no_duplicates_put ok pool s = (Some h, pool')"
  shows "string_at (arena (strings pool')) h = Some s"
proof -
  have "\<forall>kv\<in>set (already_stored pool'). snd kv = fst kv"
    using put_inv [OF inv s put] by (simp add: no_duplicates_inv_def)
  with put_then_lookup [OF inv s put] show ?thesis by (rule lookup_str_Some)
qed

lemma put_keeps_strings:
  assumes inv: "no_duplicates_inv pool" and s: "c_string s"
    and put: "string_pool_no_duplicates_put ok pool s = (r, pool')"
    and at: "string_at (arena (strings pool)) h = Some t"
  shows "string_at (arena (strings pool')) h = Some t"
proof -
  from put_cases [OF inv s put] consider "pool' = pool"
    | "pool' = pool\<lparr>strings := (strings pool)\<lparr>arena := arena (strings pool) @ s @ [NUL]\<rparr>,
                 already_stored := already_stored pool @
                   [(length (arena (strings pool)), length (arena (strings pool)))]\<rparr>"
    by blast
  then show ?thesis
  proof cases
    case 1
    with at show ?thesis by simp
  next
    case 2
    then show ?thesis
      using at string_at_append [OF string_at_terminated [OF at]] by simp
  qed
qed

text \<open>
  C2 (amended): take a pool without duplicates after any sequence of insertions of C
  strings, whatever their allocation outcomes. If inserting \<open>s1\<close> returns a pointer
  \<open>h1\<close>, then inserting a byte-equal string next returns the same pointer and leaves
  the pool as it is (no byte is written, whether an allocation would succeed or not);
  and if inserting a different string \<open>s2\<close> next returns a pointer, that pointer
  differs from \<open>h1\<close>, and each of the two points to a copy of the bytes inserted,
  followed by a null byte.
\<close>

theorem no_duplicates_put_twice:
  assumes "\<forall>x\<in>set history. c_string (snd x)" and "c_string s1" and "c_string s2"
    and "string_pool_no_duplicates_put ok1
           (no_duplicates_puts (string_pool_no_duplicates_create capacity) history) s1 =
           (Some h1, pool1)"
    and "string_pool_no_duplicates_put ok2 pool1 s2 = (r2, pool2)"
  shows "(s2 = s1 \<longrightarrow> r2 = Some h1 \<and> pool2 = pool1) \<and>
         (s2 \<noteq> s1 \<longrightarrow>
            (\<forall>h2. r2 = Some h2 \<longrightarrow>
               h2 \<noteq> h1 \<and>
               take (Suc (length s1)) (drop h1 (arena (strings pool2))) = s1 @ [NUL] \<and>
               take (Suc (length s2)) (drop h2 (arena (strings pool2))) = s2 @ [NUL]))"
proof -
  let ?pool = "no_duplicates_puts (string_pool_no_duplicates_create capacity) history"
  have inv: "no_duplicates_inv ?pool"
    using create_inv assms(1) by (rule puts_inv)
  have inv1: "no_duplicates_inv pool1"
    using inv assms(2) assms(4) by (rule put_inv)
  have at1: "string_at (arena (strings pool1)) h1 = Some s1"
    using inv assms(2) assms(4) by (rule put_string_at)
  have same: "s2 = s1 \<longrightarrow> r2 = Some h1 \<and> pool2 = pool1"
  proof
    assume eq: "s2 = s1"
    from put_then_lookup [OF inv assms(2) assms(4)]
    have "g_hash_table_lookup_str (arena (strings pool1)) (already_stored pool1) s2 = Some h1"
      by (simp add: eq)
    from put_found [OF this, of ok2] assms(5) show "r2 = Some h1 \<and> pool2 = pool1" by simp
  qed
  have differ: "s2 \<noteq> s1 \<longrightarrow>
            (\<forall>h2. r2 = Some h2 \<longrightarrow>
               h2 \<noteq> h1 \<and>
               take (Suc (length s1)) (drop h1 (arena (strings pool2))) = s1 @ [NUL] \<and>
               take (Suc (length s2)) (drop h2 (arena (strings pool2))) = s2 @ [NUL])"
  proof (intro impI allI)
    fix h2 assume ne: "s2 \<noteq> s1" and r2: "r2 = Some h2"
    have put2: "string_pool_no_duplicates_put ok2 pool1 s2 = (Some h2, pool2)"
      using assms(5) r2 by simp
    have at2: "string_at (arena (strings pool2)) h2 = Some s2"
      using inv1 assms(3) put2 by (rule put_string_at)
    have at1': "string_at (arena (strings pool2)) h1 = Some s1"
      using inv1 assms(3) put2 at1 by (rule put_keeps_strings)
    have "h2 \<noteq> h1" using at1' at2 ne by auto
    with string_at_bytes [OF at1'] string_at_bytes [OF at2]
    show "h2 \<noteq> h1 \<and>
          take (Suc (length s1)) (drop h1 (arena (strings pool2))) = s1 @ [NUL] \<and>
          take (Suc (length s2)) (drop h2 (arena (strings pool2))) = s2 @ [NUL]"
      by simp
  qed
  from same differ show ?thesis ..
qed


lemma NUL_simps [simp]: "NUL \<noteq> CHR ''a''" "NUL \<noteq> CHR ''b''" "NUL \<noteq> CHR ''c''" "NUL \<noteq> CHR ''d''"
  "CHR ''a'' \<noteq> NUL" "CHR ''b'' \<noteq> NUL" "CHR ''c'' \<noteq> NUL" "CHR ''d'' \<noteq> NUL"
  by (simp_all add: NUL_def)

theorem no_duplicates_put_twice_witness:
  "string_pool_no_duplicates_put True
     (no_duplicates_puts (string_pool_no_duplicates_create 16) [(True, ''ab'')]) ''cd'' =
     (Some 3, example_names) \<and>
   string_pool_no_duplicates_put False example_names ''cd'' = (Some 3, example_names)"
proof -
  have h: "\<forall>x\<in>set [(True, ''ab'')]. c_string (snd x)" by (simp add: c_string_def)
  have c: "c_string ''cd''" by (simp add: c_string_def)
  have p1: "string_pool_no_duplicates_put True
     (no_duplicates_puts (string_pool_no_duplicates_create 16) [(True, ''ab'')]) ''cd'' =
     (Some 3, example_names)"
    by (simp add: string_pool_no_duplicates_create_def string_pool_create_def
        string_pool_no_duplicates_put_def string_pool_put_def g_hash_table_lookup_str_def
        g_str_equal_def string_at_def example_names_def)
  have p2: "string_pool_no_duplicates_put False example_names ''cd'' =
     (fst (string_pool_no_duplicates_put False example_names ''cd''),
      snd (string_pool_no_duplicates_put False example_names ''cd''))"
    by simp
  from no_duplicates_put_twice [OF h c c p1 p2]
  have "string_pool_no_duplicates_put False example_names ''cd'' = (Some 3, example_names)"
    by (simp add: prod_eq_iff)
  with p1 show ?thesis by simp
qed

text \<open>
  C2, as stated, fails when the first insertion fails to allocate and the second one
  succeeds: the first returns \<open>NULL\<close>, and the second, of the same bytes, returns a
  pointer and writes to the arena.
\<close>

theorem no_duplicates_put_after_failure_counterexample:
  "string_pool_no_duplicates_put False (string_pool_no_duplicates_create 16) ''ab'' =
     (None, string_pool_no_duplicates_create 16) \<and>
   string_pool_no_duplicates_put True (string_pool_no_duplicates_create 16) ''ab'' =
     (Some 0,
      \<lparr>strings = \<lparr>string_block_capacity = 16, arena = ''ab'' @ [NUL]\<rparr>,
       already_stored = [(0, 0)]\<rparr>)"
  by (simp add: string_pool_no_duplicates_create_def string_pool_create_def
      string_pool_no_duplicates_put_def string_pool_put_def g_hash_table_lookup_str_def)

section \<open>Properties of the reservation manager\<close>

lemma pool_put_item_returned:
  assumes "pool_put_item ok pool item = (Some h, pool')"
  shows "pool_get pool' h = Some item" and "pool_get pool h = None"
    and "pool_items pool' = pool_items pool @ [item]"
  using assms pool_alloc_item_returned [of ok item pool h pool']
  by (simp_all add: pool_put_item_def)

lemma pool_put_item_failed:
  "pool_put_item ok pool item = (None, pool') \<Longrightarrow> pool' = pool"
  by (simp add: pool_put_item_def pool_alloc_item_failed)

lemma pool_get_modify:
  assumes "pool_get pool h = Some v"
  shows "pool_get (pool_modify pool h f) h = Some (f v)"
  using assms by (auto simp: pool_get_def pool_modify_def split: if_splits)

lemma pool_modify_modify:
  assumes "pool_get pool h = Some v"
  shows "pool_modify (pool_modify pool h f) h g = pool_modify pool h (\<lambda>x. g (f x))"
proof -
  from assms have b: "fst h < length (blocks pool)" and i: "snd h < length (blocks pool ! fst h)"
    by (auto simp: pool_get_def split: if_splits)
  from pool_get_modify [OF assms, of f] have "pool_get (pool_modify pool h f) h = Some (f v)" .
  then show ?thesis
    using assms b i by (simp add: pool_modify_def)
qed

lemma pool_alloc_item_then_modify:
  assumes "pool_alloc_item ok junk pool = (Some h, pool')"
  shows "pool_items (pool_modify pool' h f) = pool_items pool @ [f junk]"
proof -
  from pool_alloc_item_returned(1) [OF assms] have get: "pool_get pool' h = Some junk" .
  show ?thesis
  proof (cases "blocks pool = [] \<or> block_capacity pool \<le> length (last (blocks pool))")
    case True
    with assms have h: "h = (length (blocks pool), 0)"
      and bl: "blocks pool' = blocks pool @ [[junk]]"
      by (auto simp: pool_alloc_item_def split: if_splits)
    show ?thesis
      using get by (simp add: pool_modify_def pool_items_def h bl)
  next
    case False
    then have ne: "blocks pool \<noteq> []" by simp
    from False assms have h: "h = (length (blocks pool) - 1, length (last (blocks pool)))"
      and bl: "blocks pool' = butlast (blocks pool) @ [last (blocks pool) @ [junk]]"
      by (auto simp: pool_alloc_item_def)
    have len: "length (butlast (blocks pool)) = length (blocks pool) - 1" by simp
    have cc: "concat (blocks pool) = concat (butlast (blocks pool)) @ last (blocks pool)"
      using ne by (metis append_butlast_last_id concat.simps(1) concat.simps(2) concat_append
          append_Nil2)
    show ?thesis
      using get
      by (simp add: pool_modify_def pool_items_def h bl cc list_update_append
          nth_append flip: len)
  qed
qed


lemma string_pool_put_None: "fst (string_pool_put ok pool str) = None \<longleftrightarrow> \<not> ok"
  by (simp add: string_pool_put_def)

lemma add_reservation_no_slot:
  assumes "pool_put_item ok_item (reservations manager) (reservation_shallow_copy reservation) =
             (None, pool1)"
  shows "reservation_manager_add_reservation ok_item ok_user_id ok_hotel_name manager reservation =
           (None, manager, [])"
  using assms pool_put_item_failed [OF assms]
  by (simp add: reservation_manager_add_reservation_def)

lemma add_reservation_stored:
  assumes "pool_put_item ok_item (reservations manager) (reservation_shallow_copy reservation) =
             (Some h, pool1)"
  shows "reservation_manager_add_reservation ok_item True True manager reservation =
           (Some h,
            manager\<lparr>reservations :=
                      pool_modify pool1 h
                        (\<lambda>x. reservation_set_hotel_name
                                (PoolString (Suc (length (arena (manager_strings manager)) +
                                                  length (user_id reservation))))
                                (reservation_set_user_id
                                   (PoolString (length (arena (manager_strings manager)))) x)),
                    manager_strings :=
                      (manager_strings manager)
                        \<lparr>arena := arena (manager_strings manager) @ user_id reservation @ [NUL] @
                                  hotel_name reservation @ [NUL]\<rparr>,
                    id_reservations_rel :=
                      (id_reservations_rel manager)(reservation_id reservation \<mapsto> h)\<rparr>,
            if id_reservations_rel manager (reservation_id reservation) = None then []
            else [RepeatedReservationId (reservation_id reservation)])"
proof -
  from pool_put_item_returned(1) [OF assms]
  have "pool_get pool1 h = Some (reservation_shallow_copy reservation)" .
  from pool_modify_modify [OF this] assms show ?thesis
    by (simp add: reservation_manager_add_reservation_def string_pool_put_def
        reservation_get_const_user_id_def reservation_get_const_hotel_name_def
        reservation_get_id_def g_hash_table_insert_def Let_def)
qed

lemma add_reservation_string_failed:
  assumes "pool_put_item ok_item (reservations manager) (reservation_shallow_copy reservation) =
             (Some h, pool1)"
    and "\<not> (ok_user_id \<and> ok_hotel_name)"
  shows "reservation_manager_add_reservation ok_item ok_user_id ok_hotel_name manager reservation =
           (None,
            manager\<lparr>reservations := pool_modify pool1 h reservation_invalidate,
                    manager_strings :=
                      snd (string_pool_put ok_hotel_name
                             (snd (string_pool_put ok_user_id (manager_strings manager)
                                     (user_id reservation)))
                             (hotel_name reservation))\<rparr>,
            [])"
  using assms
  by (auto simp: reservation_manager_add_reservation_def string_pool_put_def
      reservation_get_const_user_id_def reservation_get_const_hotel_name_def)


text \<open>
  C6: when the copy of the reservation has been placed in the pool (at \<open>h\<close>) and the
  copy of the user identifier or of the hotel name into the string pool fails, the add
  operation returns \<open>NULL\<close> and writes nothing to \<open>stderr\<close>, the identifier index is
  as before, the copy at \<open>h\<close> is the shallow copy marked invalid, and the pool has
  exactly that one item more: the slot is not reclaimed.
\<close>

theorem add_reservation_string_copy_failure:
  assumes "pool_put_item ok_item (reservations manager) (reservation_shallow_copy reservation) =
             (Some h, pool1)"
    and "fst (string_pool_put ok_user_id (manager_strings manager) (user_id reservation)) = None \<or>
         fst (string_pool_put ok_hotel_name
                (snd (string_pool_put ok_user_id (manager_strings manager) (user_id reservation)))
                (hotel_name reservation)) = None"
  shows "\<exists>manager'.
           reservation_manager_add_reservation ok_item ok_user_id ok_hotel_name manager reservation =
             (None, manager', []) \<and>
           id_reservations_rel manager' = id_reservations_rel manager \<and>
           pool_get (reservations manager') h =
             Some (reservation_invalidate (reservation_shallow_copy reservation)) \<and>
           pool_items (reservations manager') =
             pool_items (reservations manager) @
             [reservation_invalidate (reservation_shallow_copy reservation)]"
proof -
  let ?m = "manager\<lparr>reservations := pool_modify pool1 h reservation_invalidate,
                    manager_strings :=
                      snd (string_pool_put ok_hotel_name
                             (snd (string_pool_put ok_user_id (manager_strings manager)
                                     (user_id reservation)))
                             (hotel_name reservation))\<rparr>"
  from assms(2) have "\<not> (ok_user_id \<and> ok_hotel_name)"
    by (auto simp: string_pool_put_None)
  from add_reservation_string_failed [OF assms(1) this]
  have res: "reservation_manager_add_reservation ok_item ok_user_id ok_hotel_name manager
               reservation = (None, ?m, [])" .
  have idx: "id_reservations_rel ?m = id_reservations_rel manager" by simp
  have get: "pool_get (reservations ?m) h =
               Some (reservation_invalidate (reservation_shallow_copy reservation))"
    using pool_get_modify [OF pool_put_item_returned(1) [OF assms(1)], of reservation_invalidate]
    by simp
  have items: "pool_items (reservations ?m) =
                 pool_items (reservations manager) @
                 [reservation_invalidate (reservation_shallow_copy reservation)]"
    using pool_alloc_item_then_modify [of ok_item "reservation_shallow_copy reservation"
        "reservations manager" h pool1 reservation_invalidate] assms(1)
    by (simp add: pool_put_item_def)
  from res idx get items show ?thesis by blast
qed

text \<open>
  C3 (amended): when the identifier of the reservation is already in the index, and the
  copy of the structure and the copies of the two strings succeed, the add operation
  writes the warning to \<open>stderr\<close>, returns the pointer to the copy it has just
  stored (a slot that was not in use before), and the index maps the identifier to that
  pointer from then on.
\<close>

theorem add_reservation_repeated_id:
  assumes "id_reservations_rel manager (reservation_id reservation) = Some old"
    and "fst (pool_put_item ok_item (reservations manager) (reservation_shallow_copy reservation))
           \<noteq> None"
    and "fst (string_pool_put ok_user_id (manager_strings manager) (user_id reservation)) \<noteq> None"
    and "fst (string_pool_put ok_hotel_name
                (snd (string_pool_put ok_user_id (manager_strings manager) (user_id reservation)))
                (hotel_name reservation)) \<noteq> None"
  shows "\<exists>h manager' stored.
           reservation_manager_add_reservation ok_item ok_user_id ok_hotel_name manager reservation =
             (Some h, manager', [RepeatedReservationId (reservation_id reservation)]) \<and>
           id_reservations_rel manager' (reservation_id reservation) = Some h \<and>
           pool_get (reservations manager) h = None \<and>
           pool_get (reservations manager') h = Some stored \<and>
           reservation_id stored = reservation_id reservation"
proof -
  from assms(2) obtain h pool1 where
    put: "pool_put_item ok_item (reservations manager) (reservation_shallow_copy reservation) =
            (Some h, pool1)"
    by (cases "pool_put_item ok_item (reservations manager) (reservation_shallow_copy reservation)")
      auto
  from assms(3) assms(4) have ok: "ok_user_id" "ok_hotel_name"
    by (simp_all add: string_pool_put_None)
  let ?f = "\<lambda>x. reservation_set_hotel_name
                  (PoolString (Suc (length (arena (manager_strings manager)) +
                                    length (user_id reservation))))
                  (reservation_set_user_id
                     (PoolString (length (arena (manager_strings manager)))) x)"
  let ?m = "manager\<lparr>reservations := pool_modify pool1 h ?f,
                    manager_strings :=
                      (manager_strings manager)
                        \<lparr>arena := arena (manager_strings manager) @ user_id reservation @ [NUL] @
                                  hotel_name reservation @ [NUL]\<rparr>,
                    id_reservations_rel :=
                      (id_reservations_rel manager)(reservation_id reservation \<mapsto> h)\<rparr>"
  have res: "reservation_manager_add_reservation ok_item ok_user_id ok_hotel_name manager
               reservation = (Some h, ?m, [RepeatedReservationId (reservation_id reservation)])"
    using add_reservation_stored [OF put] assms(1) ok by simp
  have idx: "id_reservations_rel ?m (reservation_id reservation) = Some h" by simp
  have fresh: "pool_get (reservations manager) h = None"
    using put by (rule pool_put_item_returned(2))
  have get: "pool_get (reservations ?m) h = Some (?f (reservation_shallow_copy reservation))"
    using pool_get_modify [OF pool_put_item_returned(1) [OF put], of ?f] by simp
  have rid: "reservation_id (?f (reservation_shallow_copy reservation)) =
               reservation_id reservation"
    by (simp add: reservation_set_hotel_name_def reservation_set_user_id_def
        reservation_shallow_copy_def)
  from res idx fresh get rid show ?thesis by blast
qed

text \<open>
  C8: after an add operation that returned a pointer \<open>h\<close>, a lookup of the
  identifier of the reservation returns \<open>h\<close>, and the reservation stored there has
  the identifier, the validity mark and the other scalar fields of the one added, and
  string fields that point into the string pool of the manager, at null-terminated
  strings byte-equal to those of the one added.
\<close>

theorem add_reservation_then_get_by_id:
  assumes "c_string (user_id reservation)" and "c_string (hotel_name reservation)"
    and "reservation_manager_add_reservation ok_item ok_user_id ok_hotel_name manager reservation =
           (Some h, manager', log)"
  shows "reservation_manager_get_by_id manager' (reservation_id reservation) = Some h \<and>
         (\<exists>stored pu ph.
            pool_get (reservations manager') h = Some stored \<and>
            reservation_id stored = reservation_id reservation \<and>
            invalidated stored = invalidated reservation \<and>
            reservation.more stored = reservation.more reservation \<and>
            user_id stored = PoolString pu \<and>
            string_at (arena (manager_strings manager')) pu = Some (user_id reservation) \<and>
            hotel_name stored = PoolString ph \<and>
            string_at (arena (manager_strings manager')) ph = Some (hotel_name reservation))"
proof -
  obtain r pool1 where
    put0: "pool_put_item ok_item (reservations manager) (reservation_shallow_copy reservation) =
            (r, pool1)"
    by (cases "pool_put_item ok_item (reservations manager) (reservation_shallow_copy reservation)")
  have "r \<noteq> None"
  proof
    assume "r = None"
    with put0 add_reservation_no_slot [of ok_item manager reservation pool1] assms(3)
    show False by simp
  qed
  then obtain h0 where r: "r = Some h0" by auto
  with put0 have
    put: "pool_put_item ok_item (reservations manager) (reservation_shallow_copy reservation) =
            (Some h0, pool1)"
    by simp
  have ok: "ok_user_id \<and> ok_hotel_name"
  proof (rule ccontr)
    assume "\<not> (ok_user_id \<and> ok_hotel_name)"
    from add_reservation_string_failed [OF put this] assms(3) show False by simp
  qed
  let ?bytes = "arena (manager_strings manager)"
  let ?pu = "length ?bytes"
  let ?ph = "Suc (?pu + length (user_id reservation))"
  let ?f = "\<lambda>x. reservation_set_hotel_name (PoolString ?ph)
                  (reservation_set_user_id (PoolString ?pu) x)"
  let ?m = "manager\<lparr>reservations := pool_modify pool1 h0 ?f,
                    manager_strings :=
                      (manager_strings manager)
                        \<lparr>arena := ?bytes @ user_id reservation @ [NUL] @
                                  hotel_name reservation @ [NUL]\<rparr>,
                    id_reservations_rel :=
                      (id_reservations_rel manager)(reservation_id reservation \<mapsto> h0)\<rparr>"
  from add_reservation_stored [OF put] ok
  have "reservation_manager_add_reservation ok_item ok_user_id ok_hotel_name manager reservation =
          (Some h0, ?m,
           if id_reservations_rel manager (reservation_id reservation) = None then []
           else [RepeatedReservationId (reservation_id reservation)])"
    by simp
  with assms(3) have "(Some h, manager', log) =
          (Some h0, ?m,
           if id_reservations_rel manager (reservation_id reservation) = None then []
           else [RepeatedReservationId (reservation_id reservation)])"
    by (simp only:)
  then have h: "h = h0" and m: "manager' = ?m"
    by (simp_all only: prod.inject option.inject)
  let ?stored = "?f (reservation_shallow_copy reservation)"
  have get: "pool_get (reservations ?m) h0 = Some ?stored"
    using pool_get_modify [OF pool_put_item_returned(1) [OF put], of ?f] by simp
  have fields: "reservation_id ?stored = reservation_id reservation"
    "invalidated ?stored = invalidated reservation"
    "reservation.more ?stored = reservation.more reservation"
    "user_id ?stored = PoolString ?pu" "hotel_name ?stored = PoolString ?ph"
    by (simp_all add: reservation_set_hotel_name_def reservation_set_user_id_def
        reservation_shallow_copy_def)
  have u1: "string_at (?bytes @ user_id reservation @ [NUL]) ?pu = Some (user_id reservation)"
    using assms(1) by (rule string_at_new)
  have u: "string_at (arena (manager_strings ?m)) ?pu = Some (user_id reservation)"
    using string_at_append [OF string_at_terminated [OF u1], of "hotel_name reservation @ [NUL]"] u1
    by simp
  have "string_at ((?bytes @ user_id reservation @ [NUL]) @ hotel_name reservation @ [NUL])
          (length (?bytes @ user_id reservation @ [NUL])) = Some (hotel_name reservation)"
    using assms(2) by (rule string_at_new)
  then have hn: "string_at (arena (manager_strings ?m)) ?ph = Some (hotel_name reservation)"
    by simp
  have idx: "reservation_manager_get_by_id ?m (reservation_id reservation) = Some h0"
    by (simp add: reservation_manager_get_by_id_def g_hash_table_lookup_def)
  from idx get fields u hn show ?thesis unfolding h m by blast
qed


lemma iter_items_manager_callback:
  "iter_items reservation_manager_iter_callback
     \<lparr>callback = cb, original_user_data = ud\<rparr> items =
     (fst (iter_items cb ud (filter (\<lambda>r. reservation_is_valid r = 0) items)),
      \<lparr>callback = cb,
       original_user_data =
         snd (iter_items cb ud (filter (\<lambda>r. reservation_is_valid r = 0) items))\<rparr>)"
proof (induction items arbitrary: ud)
  case Nil
  then show ?case by simp
next
  case (Cons item items)
  show ?case
  proof (cases "reservation_is_valid item = 0")
    case True
    then show ?thesis
      using Cons.IH [of "snd (cb ud item)"]
      by (simp add: reservation_manager_iter_callback_def)
  next
    case False
    then show ?thesis
      using Cons.IH [of ud] by (simp add: reservation_manager_iter_callback_def)
  qed
qed

lemma reservation_manager_iter_filter:
  "reservation_manager_iter manager cb user_data =
     iter_items cb user_data
       (filter (\<lambda>r. reservation_is_valid r = 0) (pool_items (reservations manager)))"
  by (simp add: reservation_manager_iter_def pool_iter_def iter_items_manager_callback)

lemma iter_items_recording:
  "\<exists>n. snd (snd (iter_items (recording cb) (ud, seen) xs)) = seen @ take n xs"
proof (induction xs arbitrary: ud seen)
  case Nil
  then show ?case by simp
next
  case (Cons x xs)
  show ?case
  proof (cases "fst (cb ud x) = 0")
    case True
    from Cons.IH [of "snd (cb ud x)" "seen @ [x]"] obtain n where
      "snd (snd (iter_items (recording cb) (snd (cb ud x), seen @ [x]) xs)) =
         (seen @ [x]) @ take n xs" ..
    then have "snd (snd (iter_items (recording cb) (ud, seen) (x # xs))) =
                 seen @ take (Suc n) (x # xs)"
      using True by (simp add: recording_def)
    then show ?thesis ..
  next
    case False
    then have "snd (snd (iter_items (recording cb) (ud, seen) (x # xs))) =
                 seen @ take (Suc 0) (x # xs)"
      by (simp add: recording_def)
    then show ?thesis ..
  qed
qed

text \<open>
  C7: in an iteration over a manager, every reservation the callback is called on is
  valid; the reservations it is called on are, in order, the first valid reservations
  of the pool (all of them unless a callback stops the iteration), and the iteration
  returns what an iteration over the valid reservations alone returns.
\<close>

theorem manager_iter_skips_invalid:
  assumes "reservation_manager_iter manager (recording cb) (user_data, []) =
             (ret, (user_data', seen))"
  shows "(\<forall>r\<in>set seen. reservation_is_valid r = 0) \<and>
         (\<exists>n. seen = take n (filter (\<lambda>r. reservation_is_valid r = 0)
                               (pool_items (reservations manager)))) \<and>
         reservation_manager_iter manager cb user_data =
           iter_items cb user_data
             (filter (\<lambda>r. reservation_is_valid r = 0) (pool_items (reservations manager)))"
proof -
  let ?valid = "filter (\<lambda>r. reservation_is_valid r = 0) (pool_items (reservations manager))"
  from iter_items_recording [of cb user_data "[]" ?valid] obtain n where
    "snd (snd (iter_items (recording cb) (user_data, []) ?valid)) = [] @ take n ?valid" ..
  with assms have seen: "seen = take n ?valid"
    by (simp add: reservation_manager_iter_filter)
  have "\<forall>r\<in>set seen. reservation_is_valid r = 0"
  proof
    fix r assume "r \<in> set seen"
    then have "r \<in> set ?valid" unfolding seen by (rule in_set_takeD)
    then show "reservation_is_valid r = 0" by simp
  qed
  with seen reservation_manager_iter_filter [of manager cb user_data] show ?thesis by blast
qed

theorem manager_iter_skips_invalid_witness:
  "reservation_manager_iter example_manager_tombstone (recording example_callback) (0, []) =
     (0, (7, [example_stored])) \<and>
   reservation_is_valid example_stored = 0"
proof -
  have run: "reservation_manager_iter example_manager_tombstone (recording example_callback)
               (0, []) = (0, (7, [example_stored]))"
    by (simp add: reservation_manager_iter_def pool_iter_def pool_items_def
        example_manager_tombstone_def reservation_manager_iter_callback_def
        reservation_is_valid_def example_stored_def recording_def example_callback_def)
  from manager_iter_skips_invalid [OF run] have "reservation_is_valid example_stored = 0"
    by simp
  with run show ?thesis by simp
qed


lemma example_put_item:
  "pool_put_item True (reservations example_manager)
     (reservation_shallow_copy example_reservation) =
     (Some (0, 1),
      snd (pool_put_item True (reservations example_manager)
             (reservation_shallow_copy example_reservation)))"
  by (simp add: pool_put_item_def pool_alloc_item_def example_manager_def)

theorem add_reservation_string_copy_failure_witness:
  "pool_put_item True (reservations example_manager)
     (reservation_shallow_copy example_reservation) =
     (Some (0, 1),
      snd (pool_put_item True (reservations example_manager)
             (reservation_shallow_copy example_reservation))) \<and>
   fst (string_pool_put False (manager_strings example_manager) (user_id example_reservation)) =
     None \<and>
   (\<exists>manager'.
      reservation_manager_add_reservation True False True example_manager example_reservation =
        (None, manager', []) \<and>
      id_reservations_rel manager' = id_reservations_rel example_manager \<and>
      pool_get (reservations manager') (0, 1) =
        Some (reservation_invalidate (reservation_shallow_copy example_reservation)) \<and>
      pool_items (reservations manager') =
        pool_items (reservations example_manager) @
        [reservation_invalidate (reservation_shallow_copy example_reservation)])"
proof -
  have f: "fst (string_pool_put False (manager_strings example_manager)
                  (user_id example_reservation)) = None"
    by (simp add: string_pool_put_def)
  then have
    "fst (string_pool_put False (manager_strings example_manager)
            (user_id example_reservation)) = None \<or>
     fst (string_pool_put True
            (snd (string_pool_put False (manager_strings example_manager)
                    (user_id example_reservation)))
            (hotel_name example_reservation)) = None"
    by (rule disjI1)
  from add_reservation_string_copy_failure [OF example_put_item this] example_put_item f
  show ?thesis by (intro conjI)
qed

theorem add_reservation_repeated_id_witness:
  "id_reservations_rel example_manager (reservation_id example_reservation) = Some (0, 0) \<and>
   (\<exists>h manager' stored.
      reservation_manager_add_reservation True True True example_manager example_reservation =
        (Some h, manager', [RepeatedReservationId (reservation_id example_reservation)]) \<and>
      id_reservations_rel manager' (reservation_id example_reservation) = Some h \<and>
      pool_get (reservations example_manager) h = None \<and>
      pool_get (reservations manager') h = Some stored \<and>
      reservation_id stored = reservation_id example_reservation)"
proof -
  have a: "id_reservations_rel example_manager (reservation_id example_reservation) = Some (0, 0)"
    by (simp add: example_manager_def example_reservation_def)
  have b: "fst (pool_put_item True (reservations example_manager)
                  (reservation_shallow_copy example_reservation)) \<noteq> None"
    by (simp add: pool_put_item_def pool_alloc_item_def example_manager_def)
  have c: "fst (string_pool_put True (manager_strings example_manager)
                  (user_id example_reservation)) \<noteq> None"
    by (simp add: string_pool_put_def)
  have d: "fst (string_pool_put True
                  (snd (string_pool_put True (manager_strings example_manager)
                          (user_id example_reservation)))
                  (hotel_name example_reservation)) \<noteq> None"
    by (simp add: string_pool_put_def)
  from add_reservation_repeated_id [OF a b c d] a show ?thesis by (intro conjI)
qed

text \<open>
  C3, as stated, fails when a copy fails: the identifier \<open>7\<close> is already in the
  index of the example manager, the copy of the user identifier fails, and the add
  operation returns \<open>NULL\<close>, writes no warning, and leaves the index on the old
  entity.
\<close>

theorem add_reservation_repeated_id_counterexample:
  "id_reservations_rel example_manager (reservation_id example_reservation) = Some (0, 0) \<and>
   reservation_manager_add_reservation True False True example_manager example_reservation =
     (None, example_manager_tombstone_7, []) \<and>
   id_reservations_rel example_manager_tombstone_7 (reservation_id example_reservation) =
     Some (0, 0)"
  by (simp add: reservation_manager_add_reservation_def pool_put_item_def pool_alloc_item_def
      string_pool_put_def pool_modify_def pool_get_def reservation_invalidate_def
      reservation_shallow_copy_def reservation_get_const_user_id_def
      reservation_get_const_hotel_name_def example_manager_def example_reservation_def
      example_manager_tombstone_7_def example_stored_def)

theorem add_reservation_then_get_by_id_witness:
  "c_string (user_id example_other_reservation) \<and>
   c_string (hotel_name example_other_reservation) \<and>
   fst (reservation_manager_add_reservation True True True example_manager
          example_other_reservation) = Some (0, 1) \<and>
   reservation_manager_get_by_id
     (fst (snd (reservation_manager_add_reservation True True True example_manager
                  example_other_reservation)))
     (reservation_id example_other_reservation) = Some (0, 1) \<and>
   (\<exists>stored pu ph.
      pool_get
        (reservations
           (fst (snd (reservation_manager_add_reservation True True True example_manager
                        example_other_reservation)))) (0, 1) = Some stored \<and>
      reservation_id stored = reservation_id example_other_reservation \<and>
      invalidated stored = invalidated example_other_reservation \<and>
      reservation.more stored = reservation.more example_other_reservation \<and>
      user_id stored = PoolString pu \<and>
      string_at
        (arena (manager_strings
           (fst (snd (reservation_manager_add_reservation True True True example_manager
                        example_other_reservation))))) pu =
        Some (user_id example_other_reservation) \<and>
      hotel_name stored = PoolString ph \<and>
      string_at
        (arena (manager_strings
           (fst (snd (reservation_manager_add_reservation True True True example_manager
                        example_other_reservation))))) ph =
        Some (hotel_name example_other_reservation))"
proof -
  have a: "c_string (user_id example_other_reservation)"
    and b: "c_string (hotel_name example_other_reservation)"
    by (simp_all add: c_string_def example_other_reservation_def)
  have r: "fst (reservation_manager_add_reservation True True True example_manager
                  example_other_reservation) = Some (0, 1)"
    by (simp add: reservation_manager_add_reservation_def pool_put_item_def pool_alloc_item_def
        string_pool_put_def example_manager_def Let_def g_hash_table_insert_def)
  then have c: "reservation_manager_add_reservation True True True example_manager
               example_other_reservation =
             (Some (0, 1),
              fst (snd (reservation_manager_add_reservation True True True example_manager
                          example_other_reservation)),
              snd (snd (reservation_manager_add_reservation True True True example_manager
                          example_other_reservation)))"
    by (simp add: prod_eq_iff)
  note t = add_reservation_then_get_by_id [OF a b c]
  from a b r conjunct1 [OF t] conjunct2 [OF t] show ?thesis by (intro conjI)
qed

section \<open>Query 7: the order of the statistics\<close>

text \<open>
  C4 fails on the code. The comparison function returns the difference of two medians
  cut to 32 bits, so a difference of \<open>2 ^ 31\<close> seconds or more changes sign or
  vanishes. With one airport whose median delay is \<open>0\<close> and one whose median delay is
  \<open>3214080000\<close> seconds, the function orders the smaller median first, whichever
  airport the hash table gives first, and whatever \<open>airport_code_sprintf\<close> prints:
  the array is in ascending, not descending, order of median.
\<close>

theorem q07_statistics_ascending_on_large_delay:
  "q07_generate_statistics example_date_and_time_diff airport_code_sprintf
     [example_flight_on_time, example_flight_late] =
     Some [\<lparr>airport_code = 1, median = 0\<rparr>, \<lparr>airport_code = 2, median = 3214080000\<rparr>] \<and>
   q07_generate_statistics example_date_and_time_diff airport_code_sprintf
     [example_flight_late, example_flight_on_time] =
     Some [\<lparr>airport_code = 1, median = 0\<rparr>, \<lparr>airport_code = 2, median = 3214080000\<rparr>]"
  by (simp add: q07_generate_statistics_def q07_generate_statistics_foreach_flight_def
      q07_generate_statistics_foreach_airport_def q07_median_def g_array_sort_def
      q07_generate_statistics_airport_median_compare_func_def
      example_date_and_time_diff_def example_flight_on_time_def example_flight_late_def
      Let_def)

subsection \<open>Medians below \<open>2 ^ 31\<close>\<close>

text \<open>
  When both medians are from \<open>0\<close> to \<open>2 ^ 31 - 1\<close> seconds, the 32 bits the
  comparison function returns are the difference itself, and the comparison is the
  intended order. \<open>strcmp\<close> is an order on strings without null bytes.
\<close>

lemma small_difference_gint:
  fixes ma mb :: "64 word"
  assumes "uint ma < 2 ^ 31" and "uint mb < 2 ^ 31"
  shows "sint (ucast (mb - ma) :: 32 word) = uint mb - uint ma"
proof -
  let ?d = "uint mb - uint ma"
  have "0 \<le> uint ma" "0 \<le> uint mb" by simp_all
  with assms have range: "- (2 ^ 31) \<le> ?d" "?d < 2 ^ 31" by linarith+
  have "(ucast (mb - ma) :: 32 word) = word_of_int ?d"
    by (simp add: word_eq_iff_unsigned [where ?'a = int] unsigned_ucast_eq uint_word_ariths
        take_bit_eq_mod mod_mod_cancel mod_diff_eq)
  then have "sint (ucast (mb - ma) :: 32 word) = sint (word_of_int ?d :: 32 word)"
    by (simp only:)
  also have "\<dots> = signed_take_bit 31 ?d"
    unfolding sint_sbintrunc' by simp
  also have "\<dots> = ?d"
    using range by (simp add: signed_take_bit_int_eq_self)
  finally show ?thesis .
qed


lemma of_char_zero: "of_char x = (0::nat) \<Longrightarrow> x = NUL"
  by (cases x) (simp add: NUL_def)

lemma strcmp_flip: "strcmp b a = - strcmp a b"
  by (induction a b rule: strcmp.induct) auto

lemma strcmp_Nil_right: "c_string a \<Longrightarrow> strcmp a [] \<le> 0 \<Longrightarrow> a = []"
proof (cases a)
  case Nil
  then show ?thesis by simp
next
  case (Cons x xs)
  assume "c_string a" and "strcmp a [] \<le> 0"
  with Cons have "x \<noteq> NUL" and "of_char x = (0::nat)" by (auto simp: c_string_def)
  with of_char_zero show ?thesis by blast
qed

lemma strcmp_trans:
  assumes "c_string a" and "c_string b" and "c_string c"
    and "strcmp a b \<le> 0" and "strcmp b c \<le> 0"
  shows "strcmp a c \<le> 0"
  using assms
proof (induction a arbitrary: b c)
  case Nil
  then show ?case by (cases c) simp_all
next
  case (Cons x xs)
  from Cons.prems(1,2,4) strcmp_Nil_right [of "x # xs"] obtain y ys where b: "b = y # ys"
    by (cases b) auto
  from Cons.prems(2,3,5) b strcmp_Nil_right [of b] obtain z zs where c: "c = z # zs"
    by (cases c) auto
  have cs: "c_string xs" "c_string ys" "c_string zs"
    using Cons.prems(1,2,3) b c by (simp_all add: c_string_def)
  show ?case
  proof (cases "x = y")
    case True
    show ?thesis
    proof (cases "y = z")
      case yz: True
      with True Cons.prems(4,5) b c Cons.IH [OF cs] show ?thesis by simp
    next
      case False
      with True Cons.prems(5) b c show ?thesis by simp
    qed
  next
    case False
    with Cons.prems(4) b have xy: "(of_char x :: nat) < of_char y"
      by (auto simp: order_less_le)
    show ?thesis
    proof (cases "y = z")
      case True
      with False xy c show ?thesis by simp
    next
      case yz: False
      with Cons.prems(5) b c have "(of_char y :: nat) < of_char z"
        by (auto simp: order_less_le)
      with xy c show ?thesis by auto
    qed
  qed
qed

lemma insert_sorted_set: "set (insert_sorted cmp x ys) = insert x (set ys)"
  by (induction ys) auto

lemma insert_sorted_length: "length (insert_sorted cmp x ys) = Suc (length ys)"
  by (induction ys) auto

lemma g_array_sort_set: "set (g_array_sort cmp xs) = set xs"
  by (induction xs) (simp_all add: g_array_sort_def insert_sorted_set)

lemma g_array_sort_length: "length (g_array_sort cmp xs) = length xs"
  by (induction xs) (simp_all add: g_array_sort_def insert_sorted_length)

lemma insert_sorted_sorted:
  assumes total: "\<And>a b. a \<in> S \<Longrightarrow> b \<in> S \<Longrightarrow> \<not> cmp a b \<le> 0 \<Longrightarrow> cmp b a \<le> 0"
    and trans: "\<And>a b c. a \<in> S \<Longrightarrow> b \<in> S \<Longrightarrow> c \<in> S \<Longrightarrow>
                  cmp a b \<le> 0 \<Longrightarrow> cmp b c \<le> 0 \<Longrightarrow> cmp a c \<le> 0"
    and "x \<in> S" and "set ys \<subseteq> S" and "sorted_wrt (\<lambda>a b. cmp a b \<le> 0) ys"
  shows "sorted_wrt (\<lambda>a b. cmp a b \<le> 0) (insert_sorted cmp x ys)"
  using assms(3-5)
proof (induction ys)
  case Nil
  then show ?case by simp
next
  case (Cons y ys)
  show ?case
  proof (cases "cmp x y \<le> 0")
    case True
    have "\<forall>z\<in>set ys. cmp x z \<le> 0"
    proof
      fix z assume z: "z \<in> set ys"
      with Cons.prems have "cmp y z \<le> 0" by simp
      with True trans [of x y z] Cons.prems z show "cmp x z \<le> 0" by auto
    qed
    with True Cons.prems show ?thesis by simp
  next
    case False
    with total [of x y] Cons.prems have yx: "cmp y x \<le> 0" by simp
    have "sorted_wrt (\<lambda>a b. cmp a b \<le> 0) (insert_sorted cmp x ys)"
      using Cons.IH Cons.prems by simp
    moreover have "\<forall>z\<in>set (insert_sorted cmp x ys). cmp y z \<le> 0"
      using yx Cons.prems by (simp add: insert_sorted_set)
    ultimately show ?thesis using False by simp
  qed
qed

lemma g_array_sort_sorted:
  assumes total: "\<And>a b. a \<in> S \<Longrightarrow> b \<in> S \<Longrightarrow> \<not> cmp a b \<le> 0 \<Longrightarrow> cmp b a \<le> 0"
    and trans: "\<And>a b c. a \<in> S \<Longrightarrow> b \<in> S \<Longrightarrow> c \<in> S \<Longrightarrow>
                  cmp a b \<le> 0 \<Longrightarrow> cmp b c \<le> 0 \<Longrightarrow> cmp a c \<le> 0"
    and "set xs \<subseteq> S"
  shows "sorted_wrt (\<lambda>a b. cmp a b \<le> 0) (g_array_sort cmp xs)"
  using assms(3)
proof (induction xs)
  case Nil
  then show ?case by (simp add: g_array_sort_def)
next
  case (Cons x xs)
  then have "sorted_wrt (\<lambda>a b. cmp a b \<le> 0) (g_array_sort cmp xs)" by simp
  moreover have "set (g_array_sort cmp xs) \<subseteq> S"
    using Cons.prems by (simp add: g_array_sort_set)
  moreover have "x \<in> S" using Cons.prems by simp
  ultimately have "sorted_wrt (\<lambda>a b. cmp a b \<le> 0) (insert_sorted cmp x (g_array_sort cmp xs))"
    using insert_sorted_sorted [of S cmp x "g_array_sort cmp xs"] total trans by blast
  then show ?case by (simp add: g_array_sort_def)
qed


lemma airport_median_compare_small:
  assumes "uint (median a) < 2 ^ 31" and "uint (median b) < 2 ^ 31"
  shows "q07_generate_statistics_airport_median_compare_func airport_code_sprintf a b \<le> 0 \<longleftrightarrow>
         q07_before airport_code_sprintf a b"
proof (cases "median a = median b")
  case True
  then show ?thesis
    by (simp add: q07_generate_statistics_airport_median_compare_func_def q07_before_def)
next
  case False
  then have "uint (median a) \<noteq> uint (median b)" by (simp add: word_uint_eq_iff)
  moreover from False have "median b - median a \<noteq> 0" by simp
  ultimately show ?thesis
    using small_difference_gint [OF assms] False
    by (auto simp: q07_generate_statistics_airport_median_compare_func_def q07_before_def Let_def)
qed

lemma q07_before_total:
  assumes "\<not> q07_before airport_code_sprintf a b"
  shows "q07_before airport_code_sprintf b a"
proof (cases "median a = median b")
  case True
  with assms have "\<not> strcmp (airport_code_sprintf (airport_code a))
                       (airport_code_sprintf (airport_code b)) \<le> 0"
    by (simp add: q07_before_def)
  with strcmp_flip [of "airport_code_sprintf (airport_code a)" "airport_code_sprintf (airport_code b)"]
  have "strcmp (airport_code_sprintf (airport_code b)) (airport_code_sprintf (airport_code a)) \<le> 0"
    by simp
  with True show ?thesis by (simp add: q07_before_def)
next
  case False
  then have "uint (median a) \<noteq> uint (median b)" by (simp add: word_uint_eq_iff)
  moreover from assms have "\<not> uint (median b) < uint (median a)" by (simp add: q07_before_def)
  ultimately have "uint (median a) < uint (median b)" by linarith
  then show ?thesis by (simp add: q07_before_def)
qed

lemma q07_before_trans:
  assumes "\<forall>code. c_string (airport_code_sprintf code)"
    and "q07_before airport_code_sprintf a b" and "q07_before airport_code_sprintf b c"
  shows "q07_before airport_code_sprintf a c"
  using assms(2,3)
    strcmp_trans [of "airport_code_sprintf (airport_code a)" "airport_code_sprintf (airport_code b)"
      "airport_code_sprintf (airport_code c)"] assms(1)
  by (auto simp: q07_before_def)

text \<open>
  An array of medians below \<open>2 ^ 31\<close> is sorted by \<open>g_array_sort\<close> into the
  intended order: descending medians, equal medians by ascending airport code.
\<close>

lemma g_array_sort_small_medians:
  assumes strings: "\<forall>code. c_string (airport_code_sprintf code)"
    and small: "\<forall>a\<in>set airport_medians. uint (median a) < 2 ^ 31"
  shows "sorted_wrt (q07_before airport_code_sprintf)
           (g_array_sort (q07_generate_statistics_airport_median_compare_func airport_code_sprintf)
              airport_medians)"
proof -
  let ?cmp = "q07_generate_statistics_airport_median_compare_func airport_code_sprintf"
  let ?S = "{a. uint (median a) < 2 ^ 31}"
  have total: "?cmp b a \<le> 0" if "a \<in> ?S" and "b \<in> ?S" and "\<not> ?cmp a b \<le> 0" for a b
  proof -
    from that have "\<not> q07_before airport_code_sprintf a b"
      by (simp add: airport_median_compare_small)
    then have "q07_before airport_code_sprintf b a" by (rule q07_before_total)
    with that show ?thesis by (simp add: airport_median_compare_small)
  qed
  have trans: "?cmp a c \<le> 0"
    if "a \<in> ?S" and "b \<in> ?S" and "c \<in> ?S" and "?cmp a b \<le> 0" and "?cmp b c \<le> 0" for a b c
  proof -
    from that have "q07_before airport_code_sprintf a b" and "q07_before airport_code_sprintf b c"
      by (simp_all add: airport_median_compare_small)
    then have "q07_before airport_code_sprintf a c" by (rule q07_before_trans [OF strings])
    with that show ?thesis by (simp add: airport_median_compare_small)
  qed
  from small have sub: "set airport_medians \<subseteq> ?S" by auto
  have "sorted_wrt (\<lambda>a b. ?cmp a b \<le> 0) (g_array_sort ?cmp airport_medians)"
    by (rule g_array_sort_sorted [of ?S, OF total trans sub])
  moreover have "\<And>a b. a \<in> set (g_array_sort ?cmp airport_medians) \<Longrightarrow>
                  b \<in> set (g_array_sort ?cmp airport_medians) \<Longrightarrow>
                  ?cmp a b \<le> 0 \<Longrightarrow> q07_before airport_code_sprintf a b"
    using small by (simp add: g_array_sort_set airport_median_compare_small)
  ultimately show ?thesis by (rule sorted_wrt_mono_rel [rotated])
qed

end
